theory Spec2Isabelle
  imports Complex_Main "HOL-Library.AList"
begin

section \<open>Data model\<close>

text \<open>
  Node identifiers are Python integers. A \<open>ToQNode\<close> is the dataclass with the fields
  \<open>id\<close>, \<open>text\<close> and \<open>parent\<close>; the first two are suffixed here, since \<open>id\<close> is the
  identity function of HOL and \<open>text\<close> is a command of the theory language.
\<close>

type_synonym NodeId = int

record ToQNode =
  id_node :: NodeId
  text_node :: string
  parent :: "NodeId option"

text \<open>
  \<open>ToQ.nodes\<close> is a Python dict. A dict is iterated in insertion order, and
  \<open>enumerate_collapse_plans\<close> iterates it, so the dict is an association list whose
  keys are pairwise distinct (\<open>dict_ok\<close>); \<open>map_of\<close> is the lookup.
\<close>

record ToQ =
  nodes :: "(NodeId \<times> ToQNode) list"
  root_id :: NodeId

definition dict_ok :: "('k \<times> 'v) list \<Rightarrow> bool" where
  "dict_ok d = distinct (map fst d)"

definition keys :: "ToQ \<Rightarrow> NodeId set" where
  "keys toq = set (map fst (nodes toq))"

datatype CollapsePlan = CollapsePlan (cut_edges: "NodeId list")

record OpenToQ =
  toq_o :: ToQ
  inputs :: "NodeId list"
  root_id_o :: NodeId

record CollapsedToQ =
  toq_c :: ToQ
  plan_c :: CollapsePlan
  removed_nodes :: "NodeId set"
  collapsed_question_by_root_c :: "NodeId \<rightharpoonup> string"
  component_roots_c :: "NodeId list"
  open_toq_by_root :: "(NodeId \<rightharpoonup> OpenToQ) option"

text \<open>
  Every failure of the source is a value. The four tree errors are the kinds the
  validation reports; \<open>InvalidCut\<close> and \<open>MissingCollapsedQuestion\<close> are the two
  \<open>ValueError\<close>s of \<open>apply_collapse_plan\<close> (messages "Invalid cut: ..." and
  "Missing collapsed question ..."); \<open>KeyError\<close> is a failed dict subscript,
  \<open>AssertionError\<close> a failed \<open>assert\<close>, and \<open>EmptyMax\<close> the \<open>ValueError\<close> of \<open>max\<close> on an
  empty sequence.
\<close>

datatype error =
    MissingRoot | DanglingParent | MultipleRoots | Cycle
  | InvalidCut | MissingCollapsedQuestion
  | KeyError | AssertionError | EmptyMax

section \<open>The tree type's operations\<close>

definition parent_of :: "ToQ \<Rightarrow> NodeId \<Rightarrow> NodeId option" where
  "parent_of toq k = (case map_of (nodes toq) k of None \<Rightarrow> None | Some nd \<Rightarrow> parent nd)"

text \<open>
  Walking parent pointers from \<open>k\<close> reaches the root in at most \<open>n\<close> steps.
\<close>

fun reaches_root :: "ToQ \<Rightarrow> nat \<Rightarrow> NodeId \<Rightarrow> bool" where
  "reaches_root toq 0 k = (k = root_id toq)"
| "reaches_root toq (Suc n) k =
     (k = root_id toq \<or>
      (case parent_of toq k of None \<Rightarrow> False | Some p \<Rightarrow> reaches_root toq n p))"

text \<open>
  Modelled from the spec: \<open>ToQ.validate\<close> (module \<open>toq_types\<close>) is missing from the
  sources. The spec gives five invariants, checked in order, failing fast:
  the root is a key; the root's parent is \<open>None\<close>; every other node's parent, when it
  has one, is a key (\<open>DanglingParent\<close>); no other node has parent \<open>None\<close>
  (\<open>MultipleRoots\<close>); following parent pointers from any node reaches the root in
  finitely many steps (\<open>Cycle\<close>). The spec names no kind for a root that has a
  parent; the model reports \<open>MissingRoot\<close>. The last invariant is checked with as
  many steps as the tree has nodes, which loses nothing (\<open>reaches_root_bounded\<close>).
\<close>

definition validate :: "ToQ \<Rightarrow> error + unit" where
  "validate toq =
     (if root_id toq \<notin> keys toq then Inl MissingRoot
      else if parent_of toq (root_id toq) \<noteq> None then Inl MissingRoot
      else if \<exists>(k, nd) \<in> set (nodes toq). k \<noteq> root_id toq \<and>
                (case parent nd of None \<Rightarrow> False | Some p \<Rightarrow> p \<notin> keys toq)
        then Inl DanglingParent
      else if \<exists>(k, nd) \<in> set (nodes toq). k \<noteq> root_id toq \<and> parent nd = None
        then Inl MultipleRoots
      else if \<exists>k \<in> keys toq. \<not> reaches_root toq (length (nodes toq)) k
        then Inl Cycle
      else Inr ())"

text \<open>
  Modelled from the spec: \<open>ToQ.children\<close> (module \<open>toq_types\<close>) is missing from the
  sources. It maps each node id to the sequence of its direct children, ordered by
  id; a leaf has no entry.
\<close>

definition children :: "ToQ \<Rightarrow> NodeId \<rightharpoonup> NodeId list" where
  "children toq u =
     (let cs = sort (map fst (filter (\<lambda>(k, nd). parent nd = Some u) (nodes toq)))
      in if cs = [] then None else Some cs)"

text \<open>\<open>ch.get(u, [])\<close>\<close>

definition get_default :: "('k \<rightharpoonup> 'v) \<Rightarrow> 'k \<Rightarrow> 'v \<Rightarrow> 'v" where
  "get_default m k d = (case m k of None \<Rightarrow> d | Some v \<Rightarrow> v)"

section \<open>Plan enumeration\<close>

text \<open>
  \<open>itertools.combinations(xs, r)\<close>: the subsequences of \<open>xs\<close> of length \<open>r\<close>, by
  position, in lexicographic order of the positions.
\<close>

fun combinations :: "'a list \<Rightarrow> nat \<Rightarrow> 'a list list" where
  "combinations xs 0 = [[]]"
| "combinations [] (Suc r) = []"
| "combinations (x # xs) (Suc r) = map (Cons x) (combinations xs r) @ combinations xs (Suc r)"

text \<open>
  \<open>edges\<close> is the list comprehension over the dict, so it is in the dict's order.
  The loop over \<open>r\<close> skips \<open>r = 0\<close> when \<open>include_empty\<close> is false.
\<close>

definition edges_of :: "ToQ \<Rightarrow> NodeId list" where
  "edges_of toq = filter (\<lambda>nid. nid \<noteq> root_id toq) (map fst (nodes toq))"

definition enumerate_collapse_plans :: "ToQ \<Rightarrow> bool \<Rightarrow> error + CollapsePlan list" where
  "enumerate_collapse_plans toq include_empty =
     (case validate toq of
        Inl e \<Rightarrow> Inl e
      | Inr _ \<Rightarrow>
          (let edges = edges_of toq; n = length edges
           in Inr (concat (map (\<lambda>r. if r = 0 \<and> \<not> include_empty then []
                                     else map (\<lambda>subset. CollapsePlan (sort subset))
                                            (combinations edges r))
                             [0 ..< n + 1]))))"

section \<open>Partition resolver\<close>

text \<open>\<open>tuple(sorted(set(plan.cut_edges) | {toq.root_id}))\<close>\<close>

definition component_roots :: "ToQ \<Rightarrow> CollapsePlan \<Rightarrow> NodeId list" where
  "component_roots toq plan = sorted_list_of_set (set (cut_edges plan) \<union> {root_id toq})"

text \<open>
  \<open>_component_root\<close>: the \<open>while True\<close> loop. The result is \<open>None\<close> when the loop does
  not return, \<open>Some (Inl KeyError)\<close> when \<open>toq.nodes[cur]\<close> fails. The source's
  \<open>cut\<close> is written \<open>cutset\<close>: \<open>cut\<close> is a constant of HOL.
\<close>

partial_function (option) component_root ::
  "ToQ \<Rightarrow> NodeId \<Rightarrow> NodeId set \<Rightarrow> (error + NodeId) option" where
  "component_root toq cur cutset =
     (case map_of (nodes toq) cur of
        None \<Rightarrow> Some (Inl KeyError)
      | Some nd \<Rightarrow>
          (case parent nd of
             None \<Rightarrow> Some (Inr cur)
           | Some p \<Rightarrow> if cur \<in> cutset then Some (Inr cur) else component_root toq p cutset))"

declare component_root.simps [code]

section \<open>Open-subtree extractor\<close>

text \<open>
  The inner \<open>for v in ch.get(u, [])\<close> loop. The Python list \<open>stack\<close> is kept with its
  end at the head of the model's list: \<open>stack.append(v)\<close> is \<open>v # stack\<close> and
  \<open>stack.pop()\<close> takes the head. The sets \<open>internal\<close> and \<open>frontier\<close> are kept as
  duplicate-free lists of their elements (\<open>add\<close> is \<open>List.insert\<close>, which leaves a
  list unchanged when the element is in it).
\<close>

fun scan_children ::
  "NodeId set \<Rightarrow> NodeId list \<Rightarrow> NodeId list \<Rightarrow> NodeId list \<Rightarrow> NodeId list \<times> NodeId list" where
  "scan_children cutset [] stack frontier = (stack, frontier)"
| "scan_children cutset (v # vs) stack frontier =
     (if v \<in> cutset then scan_children cutset vs stack (List.insert v frontier)
      else scan_children cutset vs (v # stack) frontier)"

lemma scan_children_stack:
  "set (fst (scan_children cutset vs stack frontier)) = {v \<in> set vs. v \<notin> cutset} \<union> set stack"
  by (induction vs arbitrary: stack frontier) auto

lemma scan_children_frontier:
  "set (snd (scan_children cutset vs stack frontier)) = {v \<in> set vs. v \<in> cutset} \<union> set frontier"
  by (induction vs arbitrary: stack frontier) auto

lemma children_keys:
  "set (get_default (children toq) u []) = {k. \<exists>nd. (k, nd) \<in> set (nodes toq) \<and> parent nd = Some u}"
proof -
  let ?cs = "sort (map fst (filter (\<lambda>(k, nd). parent nd = Some u) (nodes toq)))"
  have "get_default (children toq) u [] = ?cs"
    by (cases "?cs = []") (simp_all add: get_default_def children_def Let_def)
  then show ?thesis by (auto simp: image_iff)
qed

text \<open>
  The \<open>while stack\<close> loop. It ends because each turn either shortens the stack or
  adds to \<open>internal\<close> a node of the tree (or the start node) that was not in it.
\<close>

function traverse ::
  "ToQ \<Rightarrow> NodeId set \<Rightarrow> NodeId list \<Rightarrow> NodeId list \<Rightarrow> NodeId list \<Rightarrow> NodeId list \<times> NodeId list" where
  "traverse toq cutset [] internal frontier = (internal, frontier)"
| "traverse toq cutset (u # stack) internal frontier =
     (if u \<in> set internal then traverse toq cutset stack internal frontier
      else (case scan_children cutset (get_default (children toq) u []) stack frontier of
              (stack', frontier') \<Rightarrow> traverse toq cutset stack' (internal @ [u]) frontier'))"
  by pat_completeness auto
termination
proof (relation "measures [\<lambda>(toq, cutset, stack, internal, frontier).
                             card ((keys toq \<union> set stack) - set internal),
                           \<lambda>(toq, cutset, stack, internal, frontier). length stack]",
       goal_cases)
  case 1
  show ?case by simp
next
  case (2 toq cutset u stack internal frontier)
  have "(keys toq \<union> set stack) - set internal \<subseteq> (keys toq \<union> set (u # stack)) - set internal"
    by auto
  then have "card ((keys toq \<union> set stack) - set internal)
               \<le> card ((keys toq \<union> set (u # stack)) - set internal)"
    by (intro card_mono) (auto simp: keys_def)
  then show ?case by auto
next
  case (3 toq cutset u stack internal frontier stack' frontier')
  then have st: "stack' = fst (scan_children cutset (get_default (children toq) u []) stack frontier)"
    by (metis fst_conv)
  have sub: "set stack' \<subseteq> keys toq \<union> set stack"
    unfolding st scan_children_stack children_keys keys_def by force
  have "(keys toq \<union> set stack') - set (internal @ [u])
          \<subset> (keys toq \<union> set (u # stack)) - set internal"
    using sub 3(1) by auto
  then have "card ((keys toq \<union> set stack') - set (internal @ [u]))
               < card ((keys toq \<union> set (u # stack)) - set internal)"
    by (intro psubset_card_mono) (auto simp: keys_def)
  then show ?case by simp
qed

text \<open>
  The loop that builds \<open>new_nodes\<close>. \<open>p in internal\<close> is false when \<open>p\<close> is \<open>None\<close>.
  \<open>new_nodes[nid] = ...\<close> is \<open>AList.update\<close>: it replaces the entry of a key that is
  present and appends a new key at the end. Python iterates the set \<open>internal\<close> in an
  order the language leaves open; the model takes the order of insertion.
\<close>

fun induced_nodes ::
  "ToQ \<Rightarrow> NodeId list \<Rightarrow> NodeId list \<Rightarrow> (NodeId \<times> ToQNode) list
     \<Rightarrow> error + (NodeId \<times> ToQNode) list" where
  "induced_nodes toq internal [] new_nodes = Inr new_nodes"
| "induced_nodes toq internal (nid # rest) new_nodes =
     (case map_of (nodes toq) nid of
        None \<Rightarrow> Inl KeyError
      | Some node \<Rightarrow>
          (let p = parent node;
               new_parent = (case p of None \<Rightarrow> None
                             | Some q \<Rightarrow> if q \<in> set internal then p else None)
           in induced_nodes toq internal rest
                (AList.update nid
                   \<lparr>id_node = nid, text_node = text_node node, parent = new_parent\<rparr>
                   new_nodes)))"

text \<open>The keyword parameter \<open>root\<close> is written \<open>rootn\<close>: \<open>root\<close> is a constant of HOL.\<close>

definition extract_open_toq :: "ToQ \<Rightarrow> CollapsePlan \<Rightarrow> NodeId \<Rightarrow> error + OpenToQ" where
  "extract_open_toq toq plan rootn =
     (case validate toq of
        Inl e \<Rightarrow> Inl e
      | Inr _ \<Rightarrow>
          (let cutset = set (cut_edges plan);
               (internal, frontier) = traverse toq cutset [rootn] [] []
           in case induced_nodes toq internal internal [] of
                Inl e \<Rightarrow> Inl e
              | Inr new_nodes \<Rightarrow>
                  (let open_toq = \<lparr>nodes = new_nodes, root_id = rootn\<rparr>
                   in case validate open_toq of
                        Inl e \<Rightarrow> Inl e
                      | Inr _ \<Rightarrow>
                          Inr \<lparr>toq_o = open_toq, inputs = sort frontier,
                               root_id_o = rootn\<rparr>)))"

section \<open>Collapse applier\<close>

text \<open>
  \<open>for c in cut\<close>: both checks raise the same kind of error, so the order in which
  the set is iterated does not show; the model takes the order of first occurrence.
\<close>

fun check_cut :: "ToQ \<Rightarrow> NodeId list \<Rightarrow> error + unit" where
  "check_cut toq [] = Inr ()"
| "check_cut toq (c # cs) =
     (case map_of (nodes toq) c of
        None \<Rightarrow> Inl InvalidCut
      | Some nd \<Rightarrow> if parent nd = None then Inl InvalidCut else check_cut toq cs)"

fun check_questions :: "(NodeId \<rightharpoonup> string) \<Rightarrow> NodeId list \<Rightarrow> error + unit" where
  "check_questions cq [] = Inr ()"
| "check_questions cq (r # rs) =
     (if cq r = None then Inl MissingCollapsedQuestion else check_questions cq rs)"

text \<open>The new parent of a component root \<open>r\<close>: the branch inside the second loop.\<close>

definition new_parent_of ::
  "ToQ \<Rightarrow> NodeId set \<Rightarrow> NodeId \<Rightarrow> (error + NodeId option) option" where
  "new_parent_of toq cutset r =
     (if r = root_id toq then Some (Inr None)
      else (case map_of (nodes toq) r of
              None \<Rightarrow> Some (Inl KeyError)
            | Some nd \<Rightarrow>
                (case parent nd of
                   None \<Rightarrow> Some (Inl AssertionError)
                 | Some p \<Rightarrow>
                     (case component_root toq p cutset of
                        None \<Rightarrow> None
                      | Some (Inl e) \<Rightarrow> Some (Inl e)
                      | Some (Inr c) \<Rightarrow> Some (Inr (Some c))))))"

fun quotient_nodes ::
  "ToQ \<Rightarrow> NodeId set \<Rightarrow> (NodeId \<rightharpoonup> string) \<Rightarrow> NodeId list \<Rightarrow> (NodeId \<times> ToQNode) list
     \<Rightarrow> (error + (NodeId \<times> ToQNode) list) option" where
  "quotient_nodes toq cutset cq [] new_nodes = Some (Inr new_nodes)"
| "quotient_nodes toq cutset cq (r # rs) new_nodes =
     (case new_parent_of toq cutset r of
        None \<Rightarrow> None
      | Some (Inl e) \<Rightarrow> Some (Inl e)
      | Some (Inr new_parent) \<Rightarrow>
          (case cq r of
             None \<Rightarrow> Some (Inl KeyError)
           | Some t \<Rightarrow>
               quotient_nodes toq cutset cq rs
                 (AList.update r \<lparr>id_node = r, text_node = t, parent = new_parent\<rparr>
                    new_nodes)))"

text \<open>
  The result is \<open>None\<close> when a call of \<open>_component_root\<close> does not return.
\<close>

definition apply_collapse_plan ::
  "ToQ \<Rightarrow> CollapsePlan \<Rightarrow> (NodeId \<rightharpoonup> string) \<Rightarrow> (error + CollapsedToQ) option" where
  "apply_collapse_plan toq plan collapsed_question_by_root =
     (case validate toq of
        Inl e \<Rightarrow> Some (Inl e)
      | Inr _ \<Rightarrow>
          (let cutset = set (cut_edges plan)
           in if root_id toq \<in> cutset then Some (Inl InvalidCut)
              else (case check_cut toq (remdups (cut_edges plan)) of
                      Inl e \<Rightarrow> Some (Inl e)
                    | Inr _ \<Rightarrow>
                        (let roots = component_roots toq plan
                         in case check_questions collapsed_question_by_root roots of
                              Inl e \<Rightarrow> Some (Inl e)
                            | Inr _ \<Rightarrow>
                                (case quotient_nodes toq cutset collapsed_question_by_root
                                        roots [] of
                                   None \<Rightarrow> None
                                 | Some (Inl e) \<Rightarrow> Some (Inl e)
                                 | Some (Inr new_nodes) \<Rightarrow>
                                     (let removed = keys toq - set roots;
                                          new_toq = \<lparr>nodes = new_nodes, root_id = root_id toq\<rparr>
                                      in case validate new_toq of
                                           Inl e \<Rightarrow> Some (Inl e)
                                         | Inr _ \<Rightarrow>
                                             Some (Inr \<lparr>toq_c = new_toq, plan_c = plan,
                                                        removed_nodes = removed,
                                                        collapsed_question_by_root_c =
                                                          collapsed_question_by_root,
                                                        component_roots_c = roots,
                                                        open_toq_by_root = None\<rparr>)))))))"

section \<open>Metrics\<close>

text \<open>
  The report's types come from the module \<open>consistency\<close>, which is not among the
  sources; the records hold the fields the metrics read: \<open>report.runs\<close>, and of a run
  \<open>r.plan\<close>, \<open>r.normalized_root\<close> and \<open>r.root_answer.text\<close>.
\<close>

record Answer =
  text_answer :: string

record Run =
  plan_r :: CollapsePlan
  normalized_root :: "string option"
  root_answer :: Answer

record ConsistencyReport =
  runs :: "Run list"

definition answer_key :: "string \<Rightarrow> string" where
  "answer_key t = t"

text \<open>
  \<open>Counter(keys)\<close>: one entry per distinct key, in the order of first occurrence,
  holding the number of occurrences.
\<close>

fun counter :: "'k list \<Rightarrow> ('k \<times> nat) list \<Rightarrow> ('k \<times> nat) list" where
  "counter [] d = d"
| "counter (k # ks) d =
     counter ks (AList.update k (case map_of d k of None \<Rightarrow> 1 | Some c \<Rightarrow> c + 1) d)"

definition run_key :: "bool \<Rightarrow> Run \<Rightarrow> string" where
  "run_key use_normalized r =
     (if use_normalized \<and> normalized_root r \<noteq> None then the (normalized_root r)
      else answer_key (text_answer (root_answer r)))"

definition answer_distribution :: "ConsistencyReport \<Rightarrow> bool \<Rightarrow> (string \<times> nat) list" where
  "answer_distribution report use_normalized =
     counter (map (run_key use_normalized) (runs report)) []"

text \<open>\<open>max\<close> of a sequence raises on the empty sequence.\<close>

fun py_max :: "nat list \<Rightarrow> error + nat" where
  "py_max [] = Inl EmptyMax"
| "py_max (x # xs) = Inr (fold max xs x)"

text \<open>
  \<open>m / n\<close> on two Python ints is the float nearest to the quotient; the model returns
  the quotient itself.
\<close>

definition agreement_rate :: "ConsistencyReport \<Rightarrow> bool \<Rightarrow> error + real" where
  "agreement_rate report use_normalized =
     (let dist = answer_distribution report use_normalized;
          n = sum_list (map snd dist)
      in if n = 0 then Inr 0
         else (case py_max (map snd dist) of
                 Inl e \<Rightarrow> Inl e
               | Inr m \<Rightarrow> Inr (real m / real n)))"

section \<open>Vocabulary of the proofs\<close>

text \<open>
  The depth of a node is the least number of parent steps that reach the root; the
  component root of a node is the value \<open>_component_root\<close> returns for it (the node
  itself when there is none).
\<close>

definition depth :: "ToQ \<Rightarrow> NodeId \<Rightarrow> nat" where
  "depth toq k = (LEAST n. reaches_root toq n k)"

definition cr :: "ToQ \<Rightarrow> NodeId set \<Rightarrow> NodeId \<Rightarrow> NodeId" where
  "cr toq cutset k = (case component_root toq k cutset of Some (Inr r) \<Rightarrow> r | _ \<Rightarrow> k)"

text \<open>The three-node chain \<open>root -> a -> b\<close> of the spec's scenarios, with ids 0, 1, 2.\<close>

definition chain_toq :: ToQ where
  "chain_toq =
     \<lparr>nodes = [(0, \<lparr>id_node = 0, text_node = ''root'', parent = None\<rparr>),
               (1, \<lparr>id_node = 1, text_node = ''a'', parent = Some 0\<rparr>),
               (2, \<lparr>id_node = 2, text_node = ''b'', parent = Some 1\<rparr>)],
      root_id = 0\<rparr>"

text \<open>A root with two children, the child with the larger id inserted first.\<close>

definition star_toq :: ToQ where
  "star_toq =
     \<lparr>nodes = [(0, \<lparr>id_node = 0, text_node = ''root'', parent = None\<rparr>),
               (2, \<lparr>id_node = 2, text_node = ''b'', parent = Some 0\<rparr>),
               (1, \<lparr>id_node = 1, text_node = ''a'', parent = Some 0\<rparr>)],
      root_id = 0\<rparr>"

text \<open>
  The enumeration in the spec's words, over a given list of edges: for \<open>r\<close> from 0 to
  \<open>k\<close>, every subsequence of length \<open>r\<close> in the order of \<open>subseqs\<close>, each sorted. The
  spec takes the edges in ascending order (\<open>enumerate_spec\<close>).
\<close>

definition plans_spec :: "NodeId list \<Rightarrow> bool \<Rightarrow> CollapsePlan list" where
  "plans_spec edges include_empty =
     concat (map (\<lambda>r. if r = 0 \<and> \<not> include_empty then []
                       else map (\<lambda>c. CollapsePlan (sort c))
                              (filter (\<lambda>c. length c = r) (subseqs edges)))
               [0 ..< length edges + 1])"

definition enumerate_spec :: "ToQ \<Rightarrow> bool \<Rightarrow> CollapsePlan list" where
  "enumerate_spec toq include_empty =
     plans_spec (sorted_list_of_set (keys toq - {root_id toq})) include_empty"

text \<open>The plans of one size: one turn of the loop over \<open>r\<close>.\<close>

definition plans_of :: "NodeId list \<Rightarrow> nat \<Rightarrow> CollapsePlan list" where
  "plans_of edges r = map (\<lambda>subset. CollapsePlan (sort subset)) (combinations edges r)"

text \<open>A report of three runs: two answer \<open>yes\<close> (one of them after normalisation), one \<open>no\<close>.\<close>

definition report3 :: ConsistencyReport where
  "report3 =
     \<lparr>runs = [\<lparr>plan_r = CollapsePlan [], normalized_root = None,
                root_answer = \<lparr>text_answer = ''yes''\<rparr>\<rparr>,
              \<lparr>plan_r = CollapsePlan [1], normalized_root = Some ''yes'',
                root_answer = \<lparr>text_answer = ''Yes.''\<rparr>\<rparr>,
              \<lparr>plan_r = CollapsePlan [2], normalized_root = None,
                root_answer = \<lparr>text_answer = ''no''\<rparr>\<rparr>]\<rparr>"

text \<open>
  The quotient node of a component root \<open>r\<close>: the supplied text, and as parent the
  component root of the original parent of \<open>r\<close>.
\<close>

definition qnode :: "ToQ \<Rightarrow> NodeId set \<Rightarrow> (NodeId \<rightharpoonup> string) \<Rightarrow> NodeId \<Rightarrow> ToQNode" where
  "qnode toq cutset cq r =
     \<lparr>id_node = r, text_node = the (cq r),
      parent = (if r = root_id toq then None
                else Some (cr toq cutset (the (parent_of toq r))))\<rparr>"

text \<open>
  The nodes reachable from \<open>r\<close> without crossing a cut edge: \<open>r\<close> itself, and every child
  of such a node that is not a cut node.
\<close>

inductive_set component :: "ToQ \<Rightarrow> NodeId set \<Rightarrow> NodeId \<Rightarrow> NodeId set"
  for toq :: ToQ and cutset :: "NodeId set" and r :: NodeId where
  start: "r \<in> component toq cutset r"
| down: "u \<in> component toq cutset r \<Longrightarrow> parent_of toq v = Some u \<Longrightarrow> v \<notin> cutset
           \<Longrightarrow> v \<in> component toq cutset r"

text \<open>
  The invariant of the \<open>while stack\<close> loop of \<open>extract_open_toq\<close>: stack and \<open>internal\<close>
  stay inside the component, the start node is in one of them, the children of the
  internal nodes are accounted for (on the stack or internal when not cut, in the
  frontier when cut), and the frontier holds only cut children of internal nodes.
\<close>

definition trav_inv ::
  "ToQ \<Rightarrow> NodeId set \<Rightarrow> NodeId \<Rightarrow> NodeId list \<Rightarrow> NodeId list \<Rightarrow> NodeId list \<Rightarrow> bool" where
  "trav_inv toq cutset r stack internal frontier \<longleftrightarrow>
     set stack \<subseteq> component toq cutset r \<and> set internal \<subseteq> component toq cutset r \<and>
     r \<in> set stack \<union> set internal \<and> distinct internal \<and> distinct frontier \<and>
     (\<forall>u v. u \<in> set internal \<and> parent_of toq v = Some u \<and> v \<notin> cutset
        \<longrightarrow> v \<in> set stack \<union> set internal) \<and>
     (\<forall>u v. u \<in> set internal \<and> parent_of toq v = Some u \<and> v \<in> cutset
        \<longrightarrow> v \<in> set frontier) \<and>
     (\<forall>v \<in> set frontier. v \<in> cutset \<and> (\<exists>u \<in> set internal. parent_of toq v = Some u))"

text \<open>
  The node built for an internal node \<open>k\<close>: id and text kept, the parent kept when it
  is internal and \<open>None\<close> otherwise.
\<close>

definition inode :: "ToQ \<Rightarrow> NodeId set \<Rightarrow> NodeId \<Rightarrow> ToQNode" where
  "inode toq internal k =
     \<lparr>id_node = k, text_node = text_node (the (map_of (nodes toq) k)),
      parent = (case parent_of toq k of None \<Rightarrow> None
                | Some q \<Rightarrow> if q \<in> internal then Some q else None)\<rparr>"

section \<open>Valid trees\<close>

lemma keys_iff: "k \<in> keys toq \<longleftrightarrow> map_of (nodes toq) k \<noteq> None"
  by (simp add: keys_def map_of_eq_None_iff)

lemma parent_of_Some_keys: "parent_of toq k = Some p \<Longrightarrow> k \<in> keys toq"
  by (auto simp: parent_of_def keys_iff split: option.splits)

lemma in_nodes_iff:
  "dict_ok (nodes toq) \<Longrightarrow> (k, nd) \<in> set (nodes toq) \<longleftrightarrow> map_of (nodes toq) k = Some nd"
  by (simp add: dict_ok_def)

lemma reaches_root_keys:
  "reaches_root toq n k \<Longrightarrow> root_id toq \<in> keys toq \<Longrightarrow> k \<in> keys toq"
  by (cases n) (auto split: option.splits dest: parent_of_Some_keys)


lemma depth_parent:
  assumes "reaches_root toq n k" and "k \<noteq> root_id toq" and "parent_of toq k = Some p"
  shows "depth toq p < depth toq k"
proof -
  have r: "reaches_root toq (depth toq k) k"
    unfolding depth_def using assms(1) by (rule LeastI)
  then obtain d where d: "depth toq k = Suc d"
    using assms(2) by (cases "depth toq k") auto
  with r assms(2,3) have "reaches_root toq d p" by simp
  then have "depth toq p \<le> d"
    unfolding depth_def by (rule Least_le)
  with d show ?thesis by simp
qed

lemma reaches_by_rank:
  fixes rk :: "NodeId \<Rightarrow> nat"
  assumes step: "\<And>k. k \<in> S \<Longrightarrow> k \<noteq> root_id toq \<Longrightarrow>
                   \<exists>p \<in> S. parent_of toq k = Some p \<and> rk p < rk k"
    and fin: "finite S"
  shows "k \<in> S \<Longrightarrow> card {x \<in> S. rk x < rk k} \<le> n \<Longrightarrow> reaches_root toq n k"
proof (induction n arbitrary: k)
  case 0
  show ?case
  proof (cases "k = root_id toq")
    case True
    then show ?thesis by simp
  next
    case False
    with step[OF "0.prems"(1)] obtain p where "p \<in> S" "rk p < rk k" by blast
    then have "{x \<in> S. rk x < rk k} \<noteq> {}" by blast
    with fin "0.prems"(2) show ?thesis by simp
  qed
next
  case (Suc n)
  show ?case
  proof (cases "k = root_id toq")
    case True
    then show ?thesis by simp
  next
    case False
    with step[OF Suc.prems(1)] obtain p where
      p: "p \<in> S" "parent_of toq k = Some p" "rk p < rk k" by blast
    have "{x \<in> S. rk x < rk p} \<subset> {x \<in> S. rk x < rk k}"
      using p by auto
    then have "card {x \<in> S. rk x < rk p} < card {x \<in> S. rk x < rk k}"
      using fin by (intro psubset_card_mono) auto
    with Suc.prems(2) have "card {x \<in> S. rk x < rk p} \<le> n" by simp
    with Suc.IH p(1) have "reaches_root toq n p" by blast
    with p(2) show ?thesis by simp
  qed
qed

lemma reaches_by_rank_length:
  fixes rk :: "NodeId \<Rightarrow> nat"
  assumes "\<And>k. k \<in> keys toq \<Longrightarrow> k \<noteq> root_id toq \<Longrightarrow>
                   \<exists>p \<in> keys toq. parent_of toq k = Some p \<and> rk p < rk k"
    and "k \<in> keys toq"
  shows "reaches_root toq (length (nodes toq)) k"
proof -
  have "card {x \<in> keys toq. rk x < rk k} \<le> card (keys toq)"
    by (intro card_mono) (auto simp: keys_def)
  also have "\<dots> \<le> length (nodes toq)"
    unfolding keys_def by (metis card_length length_map)
  finally show ?thesis
    using reaches_by_rank[of "keys toq" toq rk k] assms by (simp add: keys_def)
qed

text \<open>
  Checking the last invariant with as many steps as there are nodes loses nothing: a
  node that reaches the root at all reaches it within that many steps.
\<close>

lemma reaches_root_bounded:
  assumes root: "root_id toq \<in> keys toq"
    and fin: "\<And>k. k \<in> keys toq \<Longrightarrow> \<exists>n. reaches_root toq n k"
    and k: "k \<in> keys toq"
  shows "reaches_root toq (length (nodes toq)) k"
proof (rule reaches_by_rank_length[where rk = "depth toq", OF _ k])
  fix j assume j: "j \<in> keys toq" "j \<noteq> root_id toq"
  from fin[OF j(1)] obtain n where n: "reaches_root toq n j" by blast
  with j(2) obtain m where m: "n = Suc m" by (cases n) auto
  with n j(2) obtain p where p: "parent_of toq j = Some p" "reaches_root toq m p"
    by (auto split: option.splits)
  have "p \<in> keys toq" using p(2) root by (rule reaches_root_keys)
  moreover have "depth toq p < depth toq j" using n j(2) p(1) by (rule depth_parent)
  ultimately show "\<exists>p \<in> keys toq. parent_of toq j = Some p \<and> depth toq p < depth toq j"
    using p(1) by blast
qed

lemma validate_InrI:
  fixes rk :: "NodeId \<Rightarrow> nat"
  assumes ok: "dict_ok (nodes toq)"
    and root: "root_id toq \<in> keys toq" "parent_of toq (root_id toq) = None"
    and step: "\<And>k. k \<in> keys toq \<Longrightarrow> k \<noteq> root_id toq \<Longrightarrow>
                   \<exists>p \<in> keys toq. parent_of toq k = Some p \<and> rk p < rk k"
  shows "validate toq = Inr ()"
proof -
  have par: "parent nd = parent_of toq k" if "(k, nd) \<in> set (nodes toq)" for k nd
    using that ok by (simp add: in_nodes_iff parent_of_def)
  have in_keys: "k \<in> keys toq" if "(k, nd) \<in> set (nodes toq)" for k nd
    using that by (force simp: keys_def)
  have a: "\<not> (\<exists>(k, nd) \<in> set (nodes toq). k \<noteq> root_id toq \<and>
                (case parent nd of None \<Rightarrow> False | Some p \<Rightarrow> p \<notin> keys toq))"
    using step par in_keys by (fastforce split: option.splits)
  have b: "\<not> (\<exists>(k, nd) \<in> set (nodes toq). k \<noteq> root_id toq \<and> parent nd = None)"
    using step par in_keys by fastforce
  have c: "\<not> (\<exists>k \<in> keys toq. \<not> reaches_root toq (length (nodes toq)) k)"
    using reaches_by_rank_length[of toq rk] step by blast
  show ?thesis
    unfolding validate_def using root a b c by simp
qed

lemma validate_InrD:
  assumes "validate toq = Inr ()"
  shows "root_id toq \<in> keys toq" and "parent_of toq (root_id toq) = None"
    and "\<And>k nd. (k, nd) \<in> set (nodes toq) \<Longrightarrow> k \<noteq> root_id toq \<Longrightarrow>
            \<exists>p \<in> keys toq. parent nd = Some p"
    and "\<And>k. k \<in> keys toq \<Longrightarrow> reaches_root toq (length (nodes toq)) k"
  using assms unfolding validate_def
  by (auto split: if_splits option.splits) fastforce+

lemma valid_parent:
  assumes "validate toq = Inr ()" and "dict_ok (nodes toq)"
    and "k \<in> keys toq" and "k \<noteq> root_id toq"
  shows "\<exists>p \<in> keys toq. parent_of toq k = Some p \<and> depth toq p < depth toq k"
proof -
  from assms(3) obtain nd where nd: "map_of (nodes toq) k = Some nd"
    by (auto simp: keys_iff)
  then have "(k, nd) \<in> set (nodes toq)" by (rule map_of_SomeD)
  from validate_InrD(3)[OF assms(1) this assms(4)] obtain p where
    p: "p \<in> keys toq" "parent nd = Some p" by blast
  then have pk: "parent_of toq k = Some p" using nd by (simp add: parent_of_def)
  from depth_parent[OF validate_InrD(4)[OF assms(1,3)] assms(4) pk] p(1) pk
  show ?thesis by blast
qed

lemma valid_parent_None:
  assumes "validate toq = Inr ()" and "k \<in> keys toq" and "parent_of toq k = None"
  shows "k = root_id toq"
proof (rule ccontr)
  assume ne: "k \<noteq> root_id toq"
  from assms(2) obtain nd where nd: "map_of (nodes toq) k = Some nd"
    by (auto simp: keys_iff)
  then have "(k, nd) \<in> set (nodes toq)" by (rule map_of_SomeD)
  from validate_InrD(3)[OF assms(1) this ne] nd assms(3) show False
    by (auto simp: parent_of_def)
qed

section \<open>The upward walk\<close>


lemma component_root_stop:
  "k \<in> keys toq \<Longrightarrow> parent_of toq k = None \<or> k \<in> cutset \<Longrightarrow>
     component_root toq k cutset = Some (Inr k)"
  by (subst component_root.simps) (auto simp: keys_iff parent_of_def split: option.splits)

lemma component_root_step:
  "parent_of toq k = Some p \<Longrightarrow> k \<notin> cutset \<Longrightarrow>
     component_root toq k cutset = component_root toq p cutset"
  by (subst component_root.simps) (auto simp: parent_of_def split: option.splits)

lemma component_root_reaches:
  assumes "root_id toq \<in> keys toq" and "parent_of toq (root_id toq) = None"
  shows "reaches_root toq n k \<Longrightarrow>
           \<exists>r \<in> keys toq. component_root toq k cutset = Some (Inr r) \<and>
              (parent_of toq r = None \<or> r \<in> cutset)"
proof (induction n arbitrary: k)
  case 0
  then show ?case using assms component_root_stop[of k toq cutset] by auto
next
  case (Suc n)
  show ?case
  proof (cases "parent_of toq k = None \<or> k \<in> cutset")
    case True
    moreover have "k \<in> keys toq" using Suc.prems assms(1) by (rule reaches_root_keys)
    ultimately show ?thesis using component_root_stop[of k toq cutset] by auto
  next
    case False
    then obtain p where p: "parent_of toq k = Some p" "k \<notin> cutset" by auto
    with Suc.prems assms(2) have "reaches_root toq n p" by auto
    from Suc.IH[OF this] component_root_step[OF p] show ?thesis by simp
  qed
qed

lemma component_root_valid:
  assumes "validate toq = Inr ()" and "k \<in> keys toq"
  shows "component_root toq k cutset = Some (Inr (cr toq cutset k))"
    and "cr toq cutset k \<in> keys toq"
    and "cr toq cutset k = root_id toq \<or> cr toq cutset k \<in> cutset"
proof -
  from component_root_reaches[OF validate_InrD(1,2)[OF assms(1)] validate_InrD(4)[OF assms]]
  obtain r where r: "r \<in> keys toq" "component_root toq k cutset = Some (Inr r)"
    "parent_of toq r = None \<or> r \<in> cutset" by blast
  then have eq: "cr toq cutset k = r" by (simp add: cr_def)
  show "component_root toq k cutset = Some (Inr (cr toq cutset k))" using r eq by simp
  show "cr toq cutset k \<in> keys toq" using r eq by simp
  show "cr toq cutset k = root_id toq \<or> cr toq cutset k \<in> cutset"
    using r eq valid_parent_None[OF assms(1) r(1)] by auto
qed

lemma cr_stop:
  "k \<in> keys toq \<Longrightarrow> parent_of toq k = None \<or> k \<in> cutset \<Longrightarrow> cr toq cutset k = k"
  by (simp add: cr_def component_root_stop)

lemma cr_step:
  assumes "validate toq = Inr ()" and "parent_of toq k = Some p" and "k \<notin> cutset"
    and "p \<in> keys toq"
  shows "cr toq cutset k = cr toq cutset p"
proof -
  obtain r where r: "component_root toq p cutset = Some (Inr r)"
    using component_root_valid(1)[OF assms(1,4)] by blast
  then have "component_root toq k cutset = Some (Inr r)"
    using component_root_step[OF assms(2,3)] by simp
  with r show ?thesis by (simp add: cr_def)
qed

lemma depth_cr_aux:
  assumes v: "validate toq = Inr ()" and ok: "dict_ok (nodes toq)"
  shows "k \<in> keys toq \<Longrightarrow> depth toq k \<le> n \<Longrightarrow> depth toq (cr toq cutset k) \<le> depth toq k"
proof (induction n arbitrary: k)
  case 0
  show ?case
  proof (cases "parent_of toq k = None \<or> k \<in> cutset")
    case True
    then show ?thesis using cr_stop[OF "0.prems"(1)] by simp
  next
    case False
    then have "k \<noteq> root_id toq" using validate_InrD(2)[OF v] by auto
    from valid_parent[OF v ok "0.prems"(1) this] "0.prems"(2) show ?thesis by auto
  qed
next
  case (Suc n)
  show ?case
  proof (cases "parent_of toq k = None \<or> k \<in> cutset")
    case True
    then show ?thesis using cr_stop[OF Suc.prems(1)] by simp
  next
    case False
    then have ne: "k \<noteq> root_id toq" using validate_InrD(2)[OF v] by auto
    from valid_parent[OF v ok Suc.prems(1) ne] obtain p where
      p: "p \<in> keys toq" "parent_of toq k = Some p" "depth toq p < depth toq k" by blast
    then have "depth toq p \<le> n" using Suc.prems(2) by simp
    from Suc.IH[OF p(1) this] cr_step[OF v p(2) _ p(1)] False p(3)
    show ?thesis by simp
  qed
qed

lemma depth_cr:
  assumes "validate toq = Inr ()" and "dict_ok (nodes toq)" and "k \<in> keys toq"
  shows "depth toq (cr toq cutset k) \<le> depth toq k"
  using depth_cr_aux[OF assms(1,2,3) le_refl] .


lemma chain_valid: "validate chain_toq = Inr ()"
  by (simp add: validate_def chain_toq_def keys_def parent_of_def)

lemma chain_keys: "keys chain_toq = {0, 1, 2}"
  by (auto simp: chain_toq_def keys_def)

text \<open>
  C8. On a valid tree the upward walk of \<open>_component_root\<close> returns from every node of
  the tree, for every cut set. The node \<open>r\<close> it returns has parent \<open>None\<close> or is in the
  cut set; it is the start node itself when the start node has parent \<open>None\<close> or is in
  the cut set (a cut node is returned at once); otherwise it is what the walk returns
  from the start node's parent.
\<close>

theorem component_root_terminates:
  assumes "validate toq = Inr ()" and "node_id \<in> keys toq"
  shows "\<exists>r. component_root toq node_id cutset = Some (Inr r) \<and>
             (parent_of toq r = None \<or> r \<in> cutset) \<and>
             (parent_of toq node_id = None \<or> node_id \<in> cutset \<longrightarrow> r = node_id) \<and>
             (\<forall>p. parent_of toq node_id = Some p \<and> node_id \<notin> cutset \<longrightarrow>
                  component_root toq p cutset = Some (Inr r))"
proof -
  from component_root_reaches[OF validate_InrD(1,2)[OF assms(1)] validate_InrD(4)[OF assms]]
  obtain r where r: "component_root toq node_id cutset = Some (Inr r)"
    "parent_of toq r = None \<or> r \<in> cutset" by blast
  have "r = node_id" if "parent_of toq node_id = None \<or> node_id \<in> cutset"
    using component_root_stop[OF assms(2) that] r(1) by simp
  moreover have "component_root toq p cutset = Some (Inr r)"
    if "parent_of toq node_id = Some p \<and> node_id \<notin> cutset" for p
    using component_root_step[of toq node_id p cutset] that r(1) by simp
  ultimately show ?thesis using r by blast
qed

theorem component_root_terminates_witness:
  "validate chain_toq = Inr () \<and> 2 \<in> keys chain_toq \<and>
   component_root chain_toq 2 {1} = Some (Inr 1)"
proof -
  have v: "validate chain_toq = Inr ()" by (rule chain_valid)
  have k: "2 \<in> keys chain_toq" by (simp add: chain_keys)
  have p: "parent_of chain_toq 2 = Some 1" by (simp add: parent_of_def chain_toq_def)
  from component_root_terminates[OF v k, of "{1}"] obtain r where
    r: "component_root chain_toq 2 {1} = Some (Inr r)"
       "\<forall>p. parent_of chain_toq 2 = Some p \<and> 2 \<notin> {1::int} \<longrightarrow>
            component_root chain_toq p {1} = Some (Inr r)"
    by blast
  from component_root_terminates[OF v, of 1 "{1}"] have
    "component_root chain_toq 1 {1} = Some (Inr 1)"
    by (auto simp: chain_keys)
  with r p show ?thesis using v k by auto
qed

section \<open>Component roots\<close>

lemma component_roots_set: "set (component_roots toq plan) = insert (root_id toq) (set (cut_edges plan))"
proof -
  have "finite (set (cut_edges plan) \<union> {root_id toq})" by simp
  then have "set (component_roots toq plan) = set (cut_edges plan) \<union> {root_id toq}"
    unfolding component_roots_def by (rule set_sorted_list_of_set)
  then show ?thesis by simp
qed

lemma component_roots_sorted: "sorted (component_roots toq plan)"
  unfolding component_roots_def by (rule sorted_sorted_list_of_set)

lemma component_roots_distinct: "distinct (component_roots toq plan)"
  unfolding component_roots_def by (rule distinct_sorted_list_of_set)

lemma component_roots_length:
  "length (component_roots toq plan) = card (insert (root_id toq) (set (cut_edges plan)))"
  using distinct_card[OF component_roots_distinct, of toq plan]
  by (simp only: component_roots_set)

lemma component_roots_code:
  "component_roots toq plan = sort (remdups (root_id toq # cut_edges plan))"
proof -
  have "set (cut_edges plan) \<union> {root_id toq} = set (root_id toq # cut_edges plan)" by simp
  then show ?thesis
    unfolding component_roots_def by (simp only: sorted_list_of_set_sort_remdups)
qed

text \<open>
  C5. For every tree and every plan, \<open>component_roots\<close> returns the ascending,
  duplicate-free list of the union of \<open>{root_id}\<close> and the cut edges, and the root is in
  it. For a plan as the data model has it, cut edges without duplicates and the root
  not among them (the function assumes its cut edges well-formed and checks nothing),
  its length is \<open>|cut_edges| + 1\<close>.
\<close>

theorem component_roots_sorted_union:
  "sorted (component_roots toq plan) \<and> distinct (component_roots toq plan) \<and>
   set (component_roots toq plan) = {root_id toq} \<union> set (cut_edges plan) \<and>
   root_id toq \<in> set (component_roots toq plan) \<and>
   (distinct (cut_edges plan) \<and> root_id toq \<notin> set (cut_edges plan) \<longrightarrow>
      length (component_roots toq plan) = length (cut_edges plan) + 1)"
proof -
  have "length (component_roots toq plan) = length (cut_edges plan) + 1"
    if "distinct (cut_edges plan)" "root_id toq \<notin> set (cut_edges plan)"
  proof -
    have "length (component_roots toq plan) = card (insert (root_id toq) (set (cut_edges plan)))"
      by (rule component_roots_length)
    also have "\<dots> = card (set (cut_edges plan)) + 1" using that(2) by simp
    also have "\<dots> = length (cut_edges plan) + 1" using that(1) by (simp add: distinct_card)
    finally show ?thesis .
  qed
  then show ?thesis
    by (simp add: component_roots_set component_roots_sorted component_roots_distinct)
qed

theorem component_roots_sorted_union_witness:
  "distinct (cut_edges (CollapsePlan [1])) \<and> root_id chain_toq \<notin> set (cut_edges (CollapsePlan [1])) \<and>
   component_roots chain_toq (CollapsePlan [1]) = [0, 1] \<and>
   length (component_roots chain_toq (CollapsePlan [1])) = length (cut_edges (CollapsePlan [1])) + 1"
  using component_roots_sorted_union[of chain_toq "CollapsePlan [1]"]
  by (simp add: component_roots_code chain_toq_def)

section \<open>Enumeration of the plans\<close>

lemma subseqs_length0: "filter (\<lambda>c. c = []) (subseqs xs) = [[]]"
  by (induction xs) (simp_all add: Let_def filter_map comp_def)

lemma combinations_filter:
  "combinations xs r = filter (\<lambda>c. length c = r) (subseqs xs)"
proof (induction xs r rule: combinations.induct)
  case (1 xs)
  show ?case by (simp add: subseqs_length0)
next
  case (2 r)
  show ?case by simp
next
  case (3 x xs r)
  then show ?case by (simp add: Let_def filter_map comp_def)
qed

lemma length_combinations: "length (combinations xs r) = length xs choose r"
  by (induction xs r rule: combinations.induct) simp_all

lemma combinations_length: "c \<in> set (combinations xs r) \<Longrightarrow> length c = r"
  by (simp add: combinations_filter)

lemma combinations_distinct_sets:
  "distinct xs \<Longrightarrow> distinct (map set (combinations xs r))"
  unfolding combinations_filter
  using distinct_set_subseqs[of xs] by (simp add: distinct_map_filter)

lemma combinations_elem_distinct:
  "distinct xs \<Longrightarrow> c \<in> set (combinations xs r) \<Longrightarrow> distinct c"
  by (auto simp: combinations_filter dest: subseqs_distinctD)

lemma plans_of_0: "plans_of edges 0 = [CollapsePlan []]"
  by (simp add: plans_of_def)

lemma length_plans_of: "length (plans_of edges r) = length edges choose r"
  by (simp add: plans_of_def length_combinations)

lemma plans_of_elem:
  assumes "distinct edges" and "p \<in> set (plans_of edges r)"
  shows "length (cut_edges p) = r" and "sorted (cut_edges p)" and "distinct (cut_edges p)"
    and "set (cut_edges p) \<subseteq> set edges"
proof -
  from assms(2) obtain c where c: "c \<in> set (combinations edges r)" "p = CollapsePlan (sort c)"
    by (auto simp: plans_of_def)
  show "length (cut_edges p) = r" using c by (simp add: combinations_length)
  show "sorted (cut_edges p)" using c by simp
  show "distinct (cut_edges p)" using c combinations_elem_distinct[OF assms(1) c(1)] by simp
  have "c \<in> set (subseqs edges)" using c(1) by (simp add: combinations_filter)
  then have "set c \<in> Pow (set edges)" using subseqs_powset[of edges] by blast
  then show "set (cut_edges p) \<subseteq> set edges" using c(2) by simp
qed

lemma distinct_plans_of:
  assumes "distinct edges"
  shows "distinct (plans_of edges r)"
proof -
  have d: "distinct (map set (combinations edges r))"
    using assms by (rule combinations_distinct_sets)
  have "set \<circ> cut_edges \<circ> (\<lambda>subset. CollapsePlan (sort subset)) = set"
    by (rule ext) simp
  then have "map (set \<circ> cut_edges) (plans_of edges r) = map set (combinations edges r)"
    by (simp add: plans_of_def comp_assoc)
  with d have "distinct (map (set \<circ> cut_edges) (plans_of edges r))" by simp
  then have "distinct (plans_of edges r) \<and> inj_on (set \<circ> cut_edges) (set (plans_of edges r))"
    by (simp only: distinct_map)
  then show ?thesis by simp
qed

lemma plans_upto:
  assumes "distinct edges"
  shows "length (concat (map (plans_of edges) [0 ..< m])) = (\<Sum>r<m. length edges choose r)"
    and "distinct (concat (map (plans_of edges) [0 ..< m]))"
    and "\<forall>p \<in> set (concat (map (plans_of edges) [0 ..< m])). length (cut_edges p) < m"
proof (induction m)
  case 0
  { case 1 show ?case by simp }
  { case 2 show ?case by simp }
  { case 3 show ?case by simp }
next
  case (Suc m)
  { case 1 show ?case using Suc(1) by (simp add: length_plans_of) }
  { case 2
    have "set (concat (map (plans_of edges) [0 ..< m])) \<inter> set (plans_of edges m) = {}"
      using Suc(3) plans_of_elem(1)[OF assms] by fastforce
    then show ?case using Suc(2) distinct_plans_of[OF assms] by simp }
  { case 3 show ?case using Suc(3) plans_of_elem(1)[OF assms] by fastforce }
qed

lemma enumerate_split:
  "concat (map (\<lambda>r. if r = 0 \<and> \<not> include_empty then [] else plans_of edges r)
             [0 ..< length edges + 1])
   = (if include_empty then [CollapsePlan []] else [])
       @ concat (map (\<lambda>r. plans_of edges (Suc r)) [0 ..< length edges])"
proof -
  have "[0 ..< length edges + 1] = 0 # [Suc 0 ..< length edges + 1]"
    by (rule upt_conv_Cons) simp
  also have "[Suc 0 ..< length edges + 1] = map Suc [0 ..< length edges]"
    by (simp only: map_Suc_upt Suc_eq_plus1)
  finally have "[0 ..< length edges + 1] = 0 # map Suc [0 ..< length edges]" .
  then show ?thesis by (simp add: comp_def plans_of_0 del: upt_Suc)
qed

lemma edges_of_distinct: "dict_ok (nodes toq) \<Longrightarrow> distinct (edges_of toq)"
  by (simp add: edges_of_def dict_ok_def)

lemma edges_of_set: "set (edges_of toq) = keys toq - {root_id toq}"
  by (auto simp: edges_of_def keys_def)

lemma edges_of_length: "dict_ok (nodes toq) \<Longrightarrow> length (edges_of toq) = card (keys toq - {root_id toq})"
  using distinct_card[OF edges_of_distinct, of toq] by (simp add: edges_of_set)

lemma enumerate_valid:
  "validate toq = Inr () \<Longrightarrow>
     enumerate_collapse_plans toq include_empty =
       Inr ((if include_empty then [CollapsePlan []] else [])
              @ concat (map (\<lambda>r. plans_of (edges_of toq) (Suc r)) [0 ..< length (edges_of toq)]))"
proof -
  assume "validate toq = Inr ()"
  then have "enumerate_collapse_plans toq include_empty =
      Inr (concat (map (\<lambda>r. if r = 0 \<and> \<not> include_empty then [] else plans_of (edges_of toq) r)
             [0 ..< length (edges_of toq) + 1]))"
    unfolding plans_of_def by (simp add: enumerate_collapse_plans_def Let_def del: upt_Suc)
  then show ?thesis by (simp only: enumerate_split)
qed

text \<open>
  C3. For a valid tree with \<open>k\<close> non-root nodes the enumeration with the empty plan
  has \<open>2 ^ k\<close> plans, the one without it has \<open>2 ^ k - 1\<close> and is the former without its
  first plan, the empty one; the plans are pairwise distinct and the cut edges of each
  are sorted and free of duplicates.
\<close>

theorem enumerate_collapse_plans_count:
  assumes "validate toq = Inr ()" and "dict_ok (nodes toq)"
  shows "\<exists>plans. enumerate_collapse_plans toq False = Inr plans \<and>
           enumerate_collapse_plans toq True = Inr (CollapsePlan [] # plans) \<and>
           length (CollapsePlan [] # plans) = 2 ^ card (keys toq - {root_id toq}) \<and>
           length plans = 2 ^ card (keys toq - {root_id toq}) - 1 \<and>
           distinct (CollapsePlan [] # plans) \<and>
           (\<forall>p \<in> set (CollapsePlan [] # plans). sorted (cut_edges p) \<and> distinct (cut_edges p))"
proof -
  let ?edges = "edges_of toq"
  let ?n = "length ?edges"
  let ?rest = "concat (map (\<lambda>r. plans_of ?edges (Suc r)) [0 ..< ?n])"
  let ?all = "concat (map (plans_of ?edges) [0 ..< ?n + 1])"
  have d: "distinct ?edges" using assms(2) by (rule edges_of_distinct)
  have all: "?all = CollapsePlan [] # ?rest"
    using enumerate_split[of True ?edges] by (simp del: upt_Suc)
  have "length ?all = (\<Sum>r<?n + 1. ?n choose r)" by (rule plans_upto(1)[OF d])
  also have "\<dots> = (\<Sum>r\<le>?n. ?n choose r)" by (simp add: lessThan_Suc_atMost)
  also have "\<dots> = 2 ^ ?n" by (rule choose_row_sum)
  finally have len: "length (CollapsePlan [] # ?rest) = 2 ^ card (keys toq - {root_id toq})"
    using all edges_of_length[OF assms(2)] by (simp del: upt_Suc)
  then have len': "length ?rest = 2 ^ card (keys toq - {root_id toq}) - 1" by simp
  have dist: "distinct (CollapsePlan [] # ?rest)"
    using plans_upto(2)[OF d, of "?n + 1"] all by (simp del: upt_Suc)
  have elems: "\<forall>p \<in> set (CollapsePlan [] # ?rest). sorted (cut_edges p) \<and> distinct (cut_edges p)"
  proof
    fix p assume "p \<in> set (CollapsePlan [] # ?rest)"
    then have "p \<in> set ?all" using all by (simp del: upt_Suc)
    then obtain r where "p \<in> set (plans_of ?edges r)" by (auto simp del: upt_Suc)
    from plans_of_elem(2,3)[OF d this] show "sorted (cut_edges p) \<and> distinct (cut_edges p)" by simp
  qed
  have "enumerate_collapse_plans toq False = Inr ?rest"
    and "enumerate_collapse_plans toq True = Inr (CollapsePlan [] # ?rest)"
    using enumerate_valid[OF assms(1)] by simp_all
  with len len' dist elems show ?thesis by blast
qed

lemma chain_dict_ok: "dict_ok (nodes chain_toq)"
  by (simp add: dict_ok_def chain_toq_def)

theorem enumerate_collapse_plans_count_witness:
  "validate chain_toq = Inr () \<and> dict_ok (nodes chain_toq) \<and>
   (\<exists>plans. enumerate_collapse_plans chain_toq False = Inr plans \<and>
      enumerate_collapse_plans chain_toq True = Inr (CollapsePlan [] # plans) \<and>
      length (CollapsePlan [] # plans) = 4 \<and> length plans = 3)"
proof -
  have c: "card (keys chain_toq - {root_id chain_toq}) = 2"
    using edges_of_length[OF chain_dict_ok] by (simp add: edges_of_def chain_toq_def)
  show ?thesis
    using enumerate_collapse_plans_count[OF chain_valid chain_dict_ok] chain_valid chain_dict_ok
    unfolding c by auto
qed

lemma plans_spec_eq:
  "plans_spec edges include_empty =
     concat (map (\<lambda>r. if r = 0 \<and> \<not> include_empty then [] else plans_of edges r)
               [0 ..< length edges + 1])"
  unfolding plans_spec_def plans_of_def combinations_filter ..

lemma edges_of_sorted:
  assumes "dict_ok (nodes toq)" and "sorted (edges_of toq)"
  shows "edges_of toq = sorted_list_of_set (keys toq - {root_id toq})"
proof -
  have "sorted_list_of_set (set (edges_of toq)) = edges_of toq"
    using assms(2) edges_of_distinct[OF assms(1)]
    by (rule sorted_list_of_set.idem_if_sorted_distinct)
  then show ?thesis by (simp only: edges_of_set)
qed

lemma combinations_1: "combinations xs (Suc 0) = map (\<lambda>x. [x]) xs"
  by (induction xs) simp_all

lemma plans_of_1: "plans_of edges (Suc 0) = map (\<lambda>e. CollapsePlan [e]) edges"
  by (simp add: plans_of_def combinations_1 comp_def)

lemma plans_spec_split:
  "plans_spec edges include_empty =
     (if include_empty then [CollapsePlan []] else [])
       @ concat (map (\<lambda>r. plans_of edges (Suc r)) [0 ..< length edges])"
  unfolding plans_spec_eq by (rule enumerate_split)

text \<open>
  The plans of size one are the edges, one by one and in their order, so two edge lists
  of the same length with the same enumeration are the same list.
\<close>

lemma plans_spec_inj:
  assumes eq: "plans_spec xs include_empty = plans_spec ys include_empty"
    and len: "length xs = length ys"
  shows "xs = ys"
proof (cases "length xs")
  case 0
  then show ?thesis using len by simp
next
  case (Suc n)
  have up: "[0 ..< Suc n] = 0 # [Suc 0 ..< Suc n]" by (rule upt_conv_Cons) simp
  have split: "concat (map (\<lambda>r. plans_of zs (Suc r)) [0 ..< Suc n])
                 = plans_of zs (Suc 0) @ concat (map (\<lambda>r. plans_of zs (Suc r)) [Suc 0 ..< Suc n])"
    for zs
    by (simp only: up list.map concat.simps)
  from eq have "concat (map (\<lambda>r. plans_of xs (Suc r)) [0 ..< Suc n])
                  = concat (map (\<lambda>r. plans_of ys (Suc r)) [0 ..< Suc n])"
    unfolding plans_spec_split using Suc len by simp
  then have "plans_of xs (Suc 0) @ concat (map (\<lambda>r. plans_of xs (Suc r)) [Suc 0 ..< Suc n])
               = plans_of ys (Suc 0) @ concat (map (\<lambda>r. plans_of ys (Suc r)) [Suc 0 ..< Suc n])"
    by (simp only: split)
  moreover have "length (plans_of xs (Suc 0)) = length (plans_of ys (Suc 0))"
    using len by (simp add: plans_of_1)
  ultimately have "plans_of xs (Suc 0) = plans_of ys (Suc 0)" by simp
  then have "map (\<lambda>e. CollapsePlan [e]) xs = map (\<lambda>e. CollapsePlan [e]) ys"
    by (simp only: plans_of_1)
  moreover have "inj (\<lambda>e::NodeId. CollapsePlan [e])" by (rule injI) simp
  ultimately show ?thesis by (simp add: inj_map_eq_map)
qed

lemma star_valid: "validate star_toq = Inr ()"
  by (simp add: validate_def star_toq_def keys_def parent_of_def)

lemma star_enumerate:
  "enumerate_collapse_plans star_toq True =
     Inr [CollapsePlan [], CollapsePlan [2], CollapsePlan [1], CollapsePlan [1, 2]]"
  by code_simp

lemma star_spec:
  "enumerate_spec star_toq True =
     [CollapsePlan [], CollapsePlan [1], CollapsePlan [2], CollapsePlan [1, 2]]"
  by code_simp

text \<open>
  C6, as stated, fails: when the dict does not hold the ids in ascending order, the
  plans come in another order than the spec's enumeration over ascending edges.
\<close>

theorem enumerate_ascending_counterexample:
  "enumerate_collapse_plans star_toq True \<noteq> Inr (enumerate_spec star_toq True)"
  by (simp add: star_enumerate star_spec)

text \<open>
  C6, amended. For a valid tree the edges are the node ids other than the root, each
  once, in the order in which the dict \<open>toq.nodes\<close> holds them, and the result is the
  enumeration over that list: for \<open>r\<close> from 0 to \<open>k\<close> every \<open>r\<close>-combination in the order of
  the generator, each sorted. It is the enumeration over the ascending edges exactly
  when the dict holds the non-root ids in ascending order.
\<close>

theorem enumerate_collapse_plans_order:
  assumes "validate toq = Inr ()" and "dict_ok (nodes toq)"
  shows "enumerate_collapse_plans toq include_empty =
           Inr (plans_spec (filter (\<lambda>nid. nid \<noteq> root_id toq) (map fst (nodes toq)))
                  include_empty) \<and>
         distinct (filter (\<lambda>nid. nid \<noteq> root_id toq) (map fst (nodes toq))) \<and>
         set (filter (\<lambda>nid. nid \<noteq> root_id toq) (map fst (nodes toq)))
           = keys toq - {root_id toq} \<and>
         (enumerate_collapse_plans toq include_empty = Inr (enumerate_spec toq include_empty)
            \<longleftrightarrow> sorted (filter (\<lambda>nid. nid \<noteq> root_id toq) (map fst (nodes toq))))"
proof -
  let ?asc = "sorted_list_of_set (keys toq - {root_id toq})"
  have e: "enumerate_collapse_plans toq include_empty = Inr (plans_spec (edges_of toq) include_empty)"
    unfolding plans_spec_eq enumerate_split by (rule enumerate_valid[OF assms(1)])
  have d: "distinct (edges_of toq)" using assms(2) by (rule edges_of_distinct)
  have fin: "finite (keys toq - {root_id toq})" by (simp add: keys_def)
  have len: "length (edges_of toq) = length ?asc"
    using edges_of_length[OF assms(2)] by simp
  have "enumerate_collapse_plans toq include_empty = Inr (enumerate_spec toq include_empty)"
    if "sorted (edges_of toq)"
    using e edges_of_sorted[OF assms(2) that] by (simp add: enumerate_spec_def)
  moreover have "sorted (edges_of toq)"
    if "enumerate_collapse_plans toq include_empty = Inr (enumerate_spec toq include_empty)"
  proof -
    from that e have "plans_spec (edges_of toq) include_empty = plans_spec ?asc include_empty"
      by (simp add: enumerate_spec_def)
    then have "edges_of toq = ?asc" using len by (rule plans_spec_inj)
    moreover have "sorted ?asc" by (rule sorted_sorted_list_of_set)
    ultimately show ?thesis by simp
  qed
  ultimately have "enumerate_collapse_plans toq include_empty = Inr (enumerate_spec toq include_empty)
                     \<longleftrightarrow> sorted (edges_of toq)" by blast
  then show ?thesis
    using e d edges_of_set[of toq] unfolding edges_of_def by blast
qed

theorem enumerate_collapse_plans_order_witness:
  "validate chain_toq = Inr () \<and> dict_ok (nodes chain_toq) \<and>
   filter (\<lambda>nid. nid \<noteq> root_id chain_toq) (map fst (nodes chain_toq)) = [1, 2] \<and>
   enumerate_collapse_plans chain_toq True = Inr (enumerate_spec chain_toq True)"
proof -
  have f: "filter (\<lambda>nid. nid \<noteq> root_id chain_toq) (map fst (nodes chain_toq)) = [1, 2]"
    by (simp add: chain_toq_def)
  then have s: "sorted (filter (\<lambda>nid. nid \<noteq> root_id chain_toq) (map fst (nodes chain_toq)))"
    by simp
  show ?thesis
    using enumerate_collapse_plans_order[OF chain_valid chain_dict_ok, of True] s f
      chain_valid chain_dict_ok by blast
qed

section \<open>Agreement rate\<close>

lemma bump_sum:
  "sum_list (map snd (AList.update k (case map_of d k of None \<Rightarrow> 1 | Some c \<Rightarrow> c + 1) d))
     = sum_list (map snd d) + (1::nat)"
  by (induction d) auto

lemma counter_sum: "sum_list (map snd (counter ks d)) = length ks + sum_list (map snd d)"
  by (induction ks arbitrary: d) (simp_all add: bump_sum)

lemma counter_distinct: "distinct (map fst d) \<Longrightarrow> distinct (map fst (counter ks d))"
  by (induction ks arbitrary: d) (simp_all add: distinct_update)

lemma counter_map_of:
  "map_of (counter ks d) k =
     (if k \<in> set ks
      then Some (count_list ks k + (case map_of d k of None \<Rightarrow> 0 | Some c \<Rightarrow> c))
      else map_of d k)"
  by (induction ks arbitrary: d) (auto simp: update_conv' split: option.splits)

lemma counter_values: "snd ` set (counter ks []) = count_list ks ` set ks"
proof -
  have d: "distinct (map fst (counter ks []))" by (rule counter_distinct) simp
  have m: "map_of (counter ks []) k = Some v \<longleftrightarrow> k \<in> set ks \<and> v = count_list ks k" for k v
    by (auto simp: counter_map_of)
  have "(k, v) \<in> set (counter ks []) \<longleftrightarrow> k \<in> set ks \<and> v = count_list ks k" for k v
    using map_of_eq_Some_iff[OF d, of k v] m[of k v] by simp
  then have "set (counter ks []) = (\<lambda>k. (k, count_list ks k)) ` set ks" by auto
  then show ?thesis by (simp add: image_image)
qed

lemma py_max_Max: "xs \<noteq> [] \<Longrightarrow> py_max xs = Inr (Max (set xs))"
proof (cases xs)
  case Nil
  assume "xs \<noteq> []"
  with Nil show ?thesis by simp
next
  case (Cons x ys)
  have "py_max (x # ys) = Inr (Max (set (x # ys)))"
    by (simp only: py_max.simps Max.set_eq_fold)
  then show ?thesis using Cons by simp
qed

text \<open>
  C10. \<open>agreement_rate\<close> never fails. On a report without runs it returns 0; otherwise
  it returns the number of occurrences of the most frequent answer key divided by the
  number of runs, which is greater than 0 and at most 1.
\<close>

theorem agreement_rate_modal:
  "(runs report = [] \<longrightarrow> agreement_rate report use_normalized = Inr 0) \<and>
   (runs report \<noteq> [] \<longrightarrow>
      (let ks = map (run_key use_normalized) (runs report);
           m = Max (count_list ks ` set ks);
           n = length (runs report)
       in agreement_rate report use_normalized = Inr (real m / real n) \<and>
          0 < real m / real n \<and> real m / real n \<le> 1))"
proof -
  let ?ks = "map (run_key use_normalized) (runs report)"
  let ?dist = "counter ?ks []"
  let ?m = "Max (count_list ?ks ` set ?ks)"
  have n: "sum_list (map snd ?dist) = length (runs report)" by (simp add: counter_sum)
  have empty: "agreement_rate report use_normalized = Inr 0" if "runs report = []"
    using that by (simp add: agreement_rate_def answer_distribution_def)
  have nonempty: "agreement_rate report use_normalized = Inr (real ?m / real (length (runs report))) \<and>
      0 < real ?m / real (length (runs report)) \<and> real ?m / real (length (runs report)) \<le> 1"
    if ne: "runs report \<noteq> []"
  proof -
    have ks: "?ks \<noteq> []" using ne by simp
    have "set (map snd ?dist) = count_list ?ks ` set ?ks"
      using counter_values[of ?ks] by simp
    moreover have "map snd ?dist \<noteq> []"
    proof
      assume "map snd ?dist = []"
      then have "sum_list (map snd ?dist) = 0" by simp
      with n ne show False by simp
    qed
    ultimately have mx: "py_max (map snd ?dist) = Inr ?m"
      using py_max_Max[of "map snd ?dist"] by simp
    have fin: "finite (count_list ?ks ` set ?ks)" and nonemp: "count_list ?ks ` set ?ks \<noteq> {}"
      using ks by simp_all
    have "?m \<in> count_list ?ks ` set ?ks" using fin nonemp by (rule Max_in)
    then obtain k where k: "k \<in> set ?ks" "?m = count_list ?ks k" by blast
    then have pos: "0 < ?m" using count_list_0_iff[of ?ks k] by simp
    have le: "?m \<le> length (runs report)" using k(2) count_le_length[of ?ks k] by simp
    have len: "0 < length (runs report)" using ne by simp
    have "agreement_rate report use_normalized = Inr (real ?m / real (length (runs report)))"
      unfolding agreement_rate_def answer_distribution_def Let_def n mx using ne by simp
    moreover have "0 < real ?m / real (length (runs report))" using pos len by simp
    moreover have "real ?m / real (length (runs report)) \<le> 1" using le len by simp
    ultimately show ?thesis by blast
  qed
  show ?thesis using empty nonempty by (simp add: Let_def)
qed

lemma report3_rate: "agreement_rate report3 True = Inr (2 / 3)"
  by (simp add: agreement_rate_def answer_distribution_def report3_def run_key_def answer_key_def Let_def)

theorem agreement_rate_modal_witness:
  "runs report3 \<noteq> [] \<and> agreement_rate report3 True = Inr (2 / 3) \<and>
   runs \<lparr>runs = []\<rparr> = [] \<and> agreement_rate \<lparr>runs = []\<rparr> True = Inr 0"
proof -
  have a: "runs report3 \<noteq> []" by (simp add: report3_def)
  have b: "runs \<lparr>runs = []\<rparr> = []" by simp
  from agreement_rate_modal[of "\<lparr>runs = []\<rparr>" True] b
  have c: "agreement_rate \<lparr>runs = []\<rparr> True = Inr 0" by blast
  from agreement_rate_modal[of report3 True] a
  have "\<exists>x. agreement_rate report3 True = Inr x" by (auto simp: Let_def)
  with a b c report3_rate show ?thesis by blast
qed

section \<open>Collapse application\<close>

lemma update_fresh: "k \<notin> fst ` set al \<Longrightarrow> AList.update k v al = al @ [(k, v)]"
  by (induction al) auto

lemma map_of_tabulate:
  "map_of (map (\<lambda>k. (k, f k)) ks) k = (if k \<in> set ks then Some (f k) else None)"
  by (induction ks) auto

lemma check_cut_eq:
  "check_cut toq cs = (if \<forall>c \<in> set cs. parent_of toq c \<noteq> None then Inr () else Inl InvalidCut)"
  by (induction cs) (auto simp: parent_of_def split: option.splits)

lemma check_questions_eq:
  "check_questions cq rs =
     (if \<forall>r \<in> set rs. cq r \<noteq> None then Inr () else Inl MissingCollapsedQuestion)"
  by (induction rs) auto

lemma parent_of_None_notin: "k \<notin> keys toq \<Longrightarrow> parent_of toq k = None"
  by (simp add: keys_iff parent_of_def)

lemma new_parent_of_valid:
  assumes "validate toq = Inr ()" and "dict_ok (nodes toq)" and "r \<in> keys toq"
  shows "new_parent_of toq cutset r = Some (Inr (parent (qnode toq cutset cq r)))"
proof (cases "r = root_id toq")
  case True
  then show ?thesis by (simp add: new_parent_of_def qnode_def)
next
  case False
  from valid_parent[OF assms(1,2,3) False] obtain p where
    p: "p \<in> keys toq" "parent_of toq r = Some p" by blast
  then obtain nd where nd: "map_of (nodes toq) r = Some nd" "parent nd = Some p"
    by (auto simp: parent_of_def split: option.splits)
  from component_root_valid(1)[OF assms(1) p(1)]
  have "component_root toq p cutset = Some (Inr (cr toq cutset p))" .
  then show ?thesis using False nd p by (simp add: new_parent_of_def qnode_def)
qed

lemma quotient_nodes_valid:
  assumes "validate toq = Inr ()" and "dict_ok (nodes toq)"
  shows "set rs \<subseteq> keys toq \<Longrightarrow> distinct rs \<Longrightarrow> set rs \<inter> fst ` set acc = {} \<Longrightarrow>
         \<forall>r \<in> set rs. cq r \<noteq> None \<Longrightarrow>
         quotient_nodes toq cutset cq rs acc =
           Some (Inr (acc @ map (\<lambda>r. (r, qnode toq cutset cq r)) rs))"
proof (induction rs arbitrary: acc)
  case Nil
  then show ?case by simp
next
  case (Cons r rs)
  from Cons.prems obtain t where t: "cq r = Some t" by auto
  have fresh: "r \<notin> fst ` set acc" using Cons.prems(3) by auto
  have q: "\<lparr>id_node = r, text_node = t, parent = parent (qnode toq cutset cq r)\<rparr>
             = qnode toq cutset cq r"
    using t by (simp add: qnode_def)
  have r: "r \<in> keys toq" using Cons.prems(1) by simp
  have "set rs \<inter> fst ` set (acc @ [(r, qnode toq cutset cq r)]) = {}"
    using Cons.prems(2,3) by auto
  from Cons.IH[OF _ _ this] Cons.prems
  have "quotient_nodes toq cutset cq rs (acc @ [(r, qnode toq cutset cq r)]) =
          Some (Inr ((acc @ [(r, qnode toq cutset cq r)]) @ map (\<lambda>r. (r, qnode toq cutset cq r)) rs))"
    by simp
  then show ?case
    using new_parent_of_valid[OF assms r, of cutset cq] t q
    by (simp add: update_fresh[OF fresh])
qed

lemma quotient_valid:
  fixes cq :: "NodeId \<rightharpoonup> string"
  assumes v: "validate toq = Inr ()" and ok: "dict_ok (nodes toq)"
    and cut: "set (cut_edges plan) \<subseteq> keys toq - {root_id toq}"
  defines "roots \<equiv> component_roots toq plan"
  defines "Q \<equiv> \<lparr>nodes = map (\<lambda>r. (r, qnode toq (set (cut_edges plan)) cq r)) roots,
                  root_id = root_id toq\<rparr>"
  shows "validate Q = Inr ()" and "dict_ok (nodes Q)" and "keys Q = set roots"
    and "\<forall>k \<in> keys Q. k \<noteq> root_id Q \<longrightarrow> (\<exists>p \<in> set roots. parent_of Q k = Some p)"
proof -
  let ?cutset = "set (cut_edges plan)"
  have roots: "set roots = insert (root_id toq) ?cutset"
    unfolding roots_def by (rule component_roots_set)
  have d: "distinct roots" unfolding roots_def by (rule component_roots_distinct)
  show okQ: "dict_ok (nodes Q)" using d by (simp add: Q_def dict_ok_def comp_def)
  show keysQ: "keys Q = set roots" by (force simp: Q_def keys_def)
  have par: "parent_of Q k = parent (qnode toq ?cutset cq k)" if "k \<in> set roots" for k
    using that by (simp add: parent_of_def Q_def map_of_tabulate)
  have rootQ: "root_id Q = root_id toq" by (simp add: Q_def)
  have step: "\<exists>p \<in> keys Q. parent_of Q k = Some p \<and> depth toq p < depth toq k"
    if k: "k \<in> keys Q" "k \<noteq> root_id Q" for k
  proof -
    have kr: "k \<in> set roots" using k(1) keysQ by simp
    then have kk: "k \<in> keys toq" "k \<noteq> root_id toq" using k(2) rootQ roots cut by auto
    from valid_parent[OF v ok kk] obtain p where
      p: "p \<in> keys toq" "parent_of toq k = Some p" "depth toq p < depth toq k" by blast
    let ?c = "cr toq ?cutset p"
    have "parent_of Q k = Some ?c" using par[OF kr] kk(2) p(2) by (simp add: qnode_def)
    moreover have "?c \<in> keys Q"
      using component_root_valid(3)[OF v p(1), of ?cutset] keysQ roots by auto
    moreover have "depth toq ?c < depth toq k"
      using depth_cr[OF v ok p(1), of ?cutset] p(3) by simp
    ultimately show ?thesis by blast
  qed
  have "root_id Q \<in> keys Q" using keysQ roots rootQ by simp
  moreover have "parent_of Q (root_id Q) = None"
    using par[of "root_id toq"] roots rootQ by (simp add: qnode_def)
  ultimately show "validate Q = Inr ()"
    using okQ step by (intro validate_InrI[where rk = "depth toq"]) auto
  show "\<forall>k \<in> keys Q. k \<noteq> root_id Q \<longrightarrow> (\<exists>p \<in> set roots. parent_of Q k = Some p)"
    using step keysQ by blast
qed

lemma apply_invalid_cut:
  assumes "validate toq = Inr ()"
    and "root_id toq \<in> set (cut_edges plan) \<or>
         (\<exists>c \<in> set (cut_edges plan). c \<notin> keys toq \<or> parent_of toq c = None)"
  shows "apply_collapse_plan toq plan cq = Some (Inl InvalidCut)"
proof (cases "root_id toq \<in> set (cut_edges plan)")
  case True
  then show ?thesis using assms(1) by (simp add: apply_collapse_plan_def)
next
  case False
  with assms(2) obtain c where "c \<in> set (cut_edges plan)" "parent_of toq c = None"
    using parent_of_None_notin by blast
  then have "check_cut toq (remdups (cut_edges plan)) = Inl InvalidCut"
    by (auto simp: check_cut_eq)
  then show ?thesis using assms(1) False by (simp add: apply_collapse_plan_def)
qed

lemma apply_missing_question:
  assumes "validate toq = Inr ()" and "root_id toq \<notin> set (cut_edges plan)"
    and "\<forall>c \<in> set (cut_edges plan). c \<in> keys toq \<and> parent_of toq c \<noteq> None"
    and "\<exists>r \<in> set (component_roots toq plan). cq r = None"
  shows "apply_collapse_plan toq plan cq = Some (Inl MissingCollapsedQuestion)"
proof -
  have "check_cut toq (remdups (cut_edges plan)) = Inr ()"
    using assms(3) by (simp add: check_cut_eq)
  moreover have "check_questions cq (component_roots toq plan) = Inl MissingCollapsedQuestion"
    using assms(4) by (auto simp: check_questions_eq)
  ultimately show ?thesis
    using assms(1,2) by (simp add: apply_collapse_plan_def)
qed

lemma apply_valid:
  assumes v: "validate toq = Inr ()" and ok: "dict_ok (nodes toq)"
    and cut: "set (cut_edges plan) \<subseteq> keys toq - {root_id toq}"
    and cq: "\<forall>r \<in> set (component_roots toq plan). cq r \<noteq> None"
  shows "apply_collapse_plan toq plan cq =
           Some (Inr \<lparr>toq_c = \<lparr>nodes = map (\<lambda>r. (r, qnode toq (set (cut_edges plan)) cq r))
                                         (component_roots toq plan),
                                root_id = root_id toq\<rparr>,
                      plan_c = plan,
                      removed_nodes = keys toq - set (component_roots toq plan),
                      collapsed_question_by_root_c = cq,
                      component_roots_c = component_roots toq plan,
                      open_toq_by_root = None\<rparr>)"
proof -
  let ?roots = "component_roots toq plan"
  have nr: "root_id toq \<notin> set (cut_edges plan)" using cut by auto
  have "parent_of toq c \<noteq> None" if "c \<in> set (cut_edges plan)" for c
    using valid_parent[OF v ok, of c] that cut by auto
  then have cc: "check_cut toq (remdups (cut_edges plan)) = Inr ()"
    by (simp add: check_cut_eq)
  have cqs: "check_questions cq ?roots = Inr ()"
    using cq by (simp add: check_questions_eq)
  have sub: "set ?roots \<subseteq> keys toq"
    using cut validate_InrD(1)[OF v] by (auto simp: component_roots_set)
  have qn: "quotient_nodes toq (set (cut_edges plan)) cq ?roots [] =
              Some (Inr (map (\<lambda>r. (r, qnode toq (set (cut_edges plan)) cq r)) ?roots))"
    using quotient_nodes_valid[OF v ok sub component_roots_distinct, of "[]" cq "set (cut_edges plan)"] cq
    by simp
  have vq: "validate \<lparr>nodes = map (\<lambda>r. (r, qnode toq (set (cut_edges plan)) cq r)) ?roots,
                       root_id = root_id toq\<rparr> = Inr ()"
    by (rule quotient_valid(1)[OF v ok cut])
  show ?thesis
    unfolding apply_collapse_plan_def Let_def by (simp add: v nr cc cqs qn vq)
qed

text \<open>
  C4, as stated, fails: with the root among the cut edges and no collapsed question for
  it, the failure is \<open>InvalidCut\<close>, not \<open>MissingCollapsedQuestion\<close>: the cut is checked
  first.
\<close>

theorem apply_collapse_plan_failure_counterexample:
  "0 \<in> set (component_roots chain_toq (CollapsePlan [0])) \<and>
   (Map.empty :: NodeId \<rightharpoonup> string) 0 = None \<and>
   apply_collapse_plan chain_toq (CollapsePlan [0]) Map.empty \<noteq> Some (Inl MissingCollapsedQuestion)"
proof -
  have "apply_collapse_plan chain_toq (CollapsePlan [0]) Map.empty = Some (Inl InvalidCut)"
    by (rule apply_invalid_cut[OF chain_valid]) (simp add: chain_toq_def)
  then show ?thesis by (simp add: component_roots_set)
qed

text \<open>
  C4, amended. On a valid tree, \<open>apply_collapse_plan\<close> fails with \<open>InvalidCut\<close> whenever a
  cut edge is the root, is not in the tree or has parent \<open>None\<close>; when no cut edge is
  such, it fails with \<open>MissingCollapsedQuestion\<close> whenever the mapping lacks an entry for
  a component root. A failure is the whole result: no \<open>CollapsedToQ\<close> comes with it.
\<close>

theorem apply_collapse_plan_failures:
  assumes "validate toq = Inr ()"
  shows "(root_id toq \<in> set (cut_edges plan) \<or>
          (\<exists>c \<in> set (cut_edges plan). c \<notin> keys toq \<or> parent_of toq c = None)
            \<longrightarrow> apply_collapse_plan toq plan cq = Some (Inl InvalidCut)) \<and>
         (root_id toq \<notin> set (cut_edges plan) \<and>
          (\<forall>c \<in> set (cut_edges plan). c \<in> keys toq \<and> parent_of toq c \<noteq> None) \<and>
          (\<exists>r \<in> set (component_roots toq plan). cq r = None)
            \<longrightarrow> apply_collapse_plan toq plan cq = Some (Inl MissingCollapsedQuestion))"
  using apply_invalid_cut[OF assms, of plan cq] apply_missing_question[OF assms, of plan cq]
  by blast

theorem apply_collapse_plan_failures_witness:
  "validate chain_toq = Inr () \<and>
   root_id chain_toq \<in> set (cut_edges (CollapsePlan [0])) \<and>
   apply_collapse_plan chain_toq (CollapsePlan [0]) Map.empty = Some (Inl InvalidCut) \<and>
   root_id chain_toq \<notin> set (cut_edges (CollapsePlan [1])) \<and>
   1 \<in> keys chain_toq \<and> parent_of chain_toq 1 \<noteq> None \<and>
   1 \<in> set (component_roots chain_toq (CollapsePlan [1])) \<and> [0 \<mapsto> ''Q1''] (1::int) = None \<and>
   apply_collapse_plan chain_toq (CollapsePlan [1]) [0 \<mapsto> ''Q1''] = Some (Inl MissingCollapsedQuestion)"
proof -
  have a: "root_id chain_toq \<in> set (cut_edges (CollapsePlan [0]))" by (simp add: chain_toq_def)
  have b: "root_id chain_toq \<notin> set (cut_edges (CollapsePlan [1]))" by (simp add: chain_toq_def)
  have c: "\<forall>c \<in> set (cut_edges (CollapsePlan [1])). c \<in> keys chain_toq \<and> parent_of chain_toq c \<noteq> None"
    by (simp add: chain_keys) (simp add: parent_of_def chain_toq_def)
  have d: "\<exists>r \<in> set (component_roots chain_toq (CollapsePlan [1])). [0 \<mapsto> ''Q1''] r = None"
    by (simp add: component_roots_set)
  show ?thesis
    using apply_collapse_plan_failures[OF chain_valid, of "CollapsePlan [0]" Map.empty]
      apply_collapse_plan_failures[OF chain_valid, of "CollapsePlan [1]" "[0 \<mapsto> ''Q1'']"]
      chain_valid a b c d
    by (simp add: component_roots_set)
qed

text \<open>
  C9. On a valid tree, the empty plan with a mapping that sends the root to \<open>t\<close> gives
  the quotient tree of one node, the root with parent \<open>None\<close> and text \<open>t\<close>, and the
  removed nodes are all the other node ids.
\<close>

theorem apply_empty_plan:
  assumes "validate toq = Inr ()" and "cq (root_id toq) = Some t"
  shows "apply_collapse_plan toq (CollapsePlan []) cq =
           Some (Inr \<lparr>toq_c = \<lparr>nodes = [(root_id toq,
                                          \<lparr>id_node = root_id toq, text_node = t, parent = None\<rparr>)],
                                root_id = root_id toq\<rparr>,
                      plan_c = CollapsePlan [],
                      removed_nodes = keys toq - {root_id toq},
                      collapsed_question_by_root_c = cq,
                      component_roots_c = [root_id toq],
                      open_toq_by_root = None\<rparr>)"
proof -
  have roots: "component_roots toq (CollapsePlan []) = [root_id toq]"
    by (simp add: component_roots_def)
  have qn: "quotient_nodes toq {} cq [root_id toq] [] =
              Some (Inr [(root_id toq, \<lparr>id_node = root_id toq, text_node = t, parent = None\<rparr>)])"
    using assms(2) by (simp add: new_parent_of_def)
  have vq: "validate \<lparr>nodes = [(root_id toq, \<lparr>id_node = root_id toq, text_node = t, parent = None\<rparr>)],
                       root_id = root_id toq\<rparr> = Inr ()"
    by (simp add: validate_def keys_def parent_of_def)
  show ?thesis
    unfolding apply_collapse_plan_def Let_def roots
    using assms by (simp add: qn vq del: quotient_nodes.simps)
qed

theorem apply_empty_plan_witness:
  "validate chain_toq = Inr () \<and> [0 \<mapsto> ''Q''] (root_id chain_toq) = Some ''Q'' \<and>
   (\<exists>c. apply_collapse_plan chain_toq (CollapsePlan []) [0 \<mapsto> ''Q''] = Some (Inr c) \<and>
        nodes (toq_c c) = [(0, \<lparr>id_node = 0, text_node = ''Q'', parent = None\<rparr>)] \<and>
        removed_nodes c = {1, 2})"
proof -
  have a: "[0 \<mapsto> ''Q''] (root_id chain_toq) = Some ''Q''" by (simp add: chain_toq_def)
  have r: "root_id chain_toq = 0" by (simp add: chain_toq_def)
  have k: "keys chain_toq - {0} = {1, 2}" by (auto simp: chain_keys)
  show ?thesis
    using apply_empty_plan[of chain_toq "[0 \<mapsto> ''Q'']" "''Q''"] chain_valid a by (simp add: r k)
qed

text \<open>
  C2. On a valid tree, with cut edges that are non-root nodes of the tree and a
  collapsed question for every component root, \<open>apply_collapse_plan\<close> returns a
  \<open>CollapsedToQ\<close>: its tree has one node for each component root and nothing else, it
  is valid, the parent of each of its non-root nodes is a component root, and the
  removed nodes are disjoint from the component roots and make up the original node
  ids together with them.
\<close>

theorem apply_collapse_plan_quotient:
  assumes "validate toq = Inr ()" and "dict_ok (nodes toq)"
    and "set (cut_edges plan) \<subseteq> keys toq - {root_id toq}"
    and "\<forall>r \<in> set (component_roots toq plan). cq r \<noteq> None"
  shows "\<exists>c. apply_collapse_plan toq plan cq = Some (Inr c) \<and>
           component_roots_c c = component_roots toq plan \<and>
           length (nodes (toq_c c)) = length (component_roots toq plan) \<and>
           dict_ok (nodes (toq_c c)) \<and>
           keys (toq_c c) = set (component_roots toq plan) \<and>
           validate (toq_c c) = Inr () \<and>
           (\<forall>k \<in> keys (toq_c c). k \<noteq> root_id (toq_c c) \<longrightarrow>
              (\<exists>p \<in> set (component_roots toq plan). parent_of (toq_c c) k = Some p)) \<and>
           removed_nodes c \<inter> set (component_roots toq plan) = {} \<and>
           removed_nodes c \<union> set (component_roots toq plan) = keys toq"
proof -
  let ?roots = "component_roots toq plan"
  let ?Q = "\<lparr>nodes = map (\<lambda>r. (r, qnode toq (set (cut_edges plan)) cq r)) ?roots,
             root_id = root_id toq\<rparr>"
  let ?c = "\<lparr>toq_c = ?Q, plan_c = plan, removed_nodes = keys toq - set ?roots,
             collapsed_question_by_root_c = cq, component_roots_c = ?roots,
             open_toq_by_root = None\<rparr>"
  have sub: "set ?roots \<subseteq> keys toq"
    using assms(3) validate_InrD(1)[OF assms(1)] by (auto simp: component_roots_set)
  have "apply_collapse_plan toq plan cq = Some (Inr ?c)"
    by (rule apply_valid[OF assms])
  moreover have "length (nodes (toq_c ?c)) = length ?roots" by simp
  moreover have "dict_ok (nodes (toq_c ?c))"
    using quotient_valid(2)[OF assms(1,2,3), of cq] by simp
  moreover have "keys (toq_c ?c) = set ?roots"
    using quotient_valid(3)[OF assms(1,2,3), of cq] by simp
  moreover have "validate (toq_c ?c) = Inr ()"
    using quotient_valid(1)[OF assms(1,2,3), of cq] by simp
  moreover have "\<forall>k \<in> keys (toq_c ?c). k \<noteq> root_id (toq_c ?c) \<longrightarrow>
                   (\<exists>p \<in> set ?roots. parent_of (toq_c ?c) k = Some p)"
    using quotient_valid(4)[OF assms(1,2,3), of cq] by simp
  moreover have "removed_nodes ?c \<inter> set ?roots = {}" by auto
  moreover have "removed_nodes ?c \<union> set ?roots = keys toq" using sub by auto
  moreover have "component_roots_c ?c = ?roots" by simp
  ultimately show ?thesis by blast
qed

theorem apply_collapse_plan_quotient_witness:
  "validate chain_toq = Inr () \<and> dict_ok (nodes chain_toq) \<and>
   set (cut_edges (CollapsePlan [1])) \<subseteq> keys chain_toq - {root_id chain_toq} \<and>
   (\<exists>c. apply_collapse_plan chain_toq (CollapsePlan [1]) [0 \<mapsto> ''Q1'', 1 \<mapsto> ''Q2''] = Some (Inr c) \<and>
        length (nodes (toq_c c)) = 2 \<and> validate (toq_c c) = Inr () \<and> removed_nodes c = {2})"
proof -
  have a: "set (cut_edges (CollapsePlan [1])) \<subseteq> keys chain_toq - {root_id chain_toq}"
    by (simp add: chain_keys) (simp add: chain_toq_def)
  have b: "\<forall>r \<in> set (component_roots chain_toq (CollapsePlan [1])). [0 \<mapsto> ''Q1'', 1 \<mapsto> ''Q2''] r \<noteq> None"
    by (simp add: component_roots_set chain_toq_def)
  have r: "set (component_roots chain_toq (CollapsePlan [1])) = {0, 1}"
    by (auto simp: component_roots_set chain_toq_def)
  have l: "length (component_roots chain_toq (CollapsePlan [1])) = 2"
    by (simp add: component_roots_code chain_toq_def)
  from apply_collapse_plan_quotient[OF chain_valid chain_dict_ok a b] obtain c where
    c: "apply_collapse_plan chain_toq (CollapsePlan [1]) [0 \<mapsto> ''Q1'', 1 \<mapsto> ''Q2''] = Some (Inr c)"
       "length (nodes (toq_c c)) = length (component_roots chain_toq (CollapsePlan [1]))"
       "validate (toq_c c) = Inr ()"
       "removed_nodes c \<inter> set (component_roots chain_toq (CollapsePlan [1])) = {}"
       "removed_nodes c \<union> set (component_roots chain_toq (CollapsePlan [1])) = keys chain_toq"
    by blast
  have c4: "removed_nodes c \<inter> {0, 1} = {}" using c(4) unfolding r .
  have c5: "removed_nodes c \<union> {0, 1} = {0, 1, 2}" using c(5) unfolding r chain_keys .
  have "removed_nodes c = (removed_nodes c \<union> {0, 1}) - {0, 1}" using c4 by blast
  also have "\<dots> = {0, 1, 2} - {0, 1}" by (simp only: c5)
  also have "\<dots> = {2::int}" by auto
  finally have "removed_nodes c = {2}" .
  with c l chain_valid chain_dict_ok a show ?thesis by auto
qed

section \<open>Open-subtree extraction\<close>

lemma children_set:
  "dict_ok (nodes toq) \<Longrightarrow> set (get_default (children toq) u []) = {v. parent_of toq v = Some u}"
  unfolding children_keys
  by (auto simp: in_nodes_iff parent_of_def split: option.splits)

lemma scan_children_distinct:
  "distinct frontier \<Longrightarrow> distinct (snd (scan_children cutset vs stack frontier))"
  by (induction vs arbitrary: stack frontier) auto

lemma trav_inv_init: "trav_inv toq cutset r [r] [] []"
  by (simp add: trav_inv_def component.start)

lemma trav_inv_skip:
  assumes "trav_inv toq cutset r (u # stack) internal frontier" and "u \<in> set internal"
  shows "trav_inv toq cutset r stack internal frontier"
proof -
  from assms(1) have
    a: "set (u # stack) \<subseteq> component toq cutset r" "set internal \<subseteq> component toq cutset r"
       "r \<in> set (u # stack) \<union> set internal" "distinct internal" "distinct frontier"
    and b: "\<And>w v. w \<in> set internal \<Longrightarrow> parent_of toq v = Some w \<Longrightarrow> v \<notin> cutset
              \<Longrightarrow> v \<in> set (u # stack) \<union> set internal"
    and c: "\<And>w v. w \<in> set internal \<Longrightarrow> parent_of toq v = Some w \<Longrightarrow> v \<in> cutset
              \<Longrightarrow> v \<in> set frontier"
    and d: "\<And>v. v \<in> set frontier \<Longrightarrow> v \<in> cutset \<and> (\<exists>w \<in> set internal. parent_of toq v = Some w)"
    unfolding trav_inv_def by blast+
  have 1: "set stack \<subseteq> component toq cutset r" using a(1) by simp
  have 3: "r \<in> set stack \<union> set internal" using a(3) assms(2) by auto
  have 5: "v \<in> set stack \<union> set internal"
    if "w \<in> set internal" "parent_of toq v = Some w" "v \<notin> cutset" for w v
    using b[OF that] assms(2) by auto
  show ?thesis
    unfolding trav_inv_def using 1 a(2) 3 a(4,5) 5 c d by blast
qed

lemma trav_inv_visit:
  assumes ok: "dict_ok (nodes toq)"
    and inv: "trav_inv toq cutset r (u # stack) internal frontier"
    and new: "u \<notin> set internal"
    and sc: "scan_children cutset (get_default (children toq) u []) stack frontier = (stack', frontier')"
  shows "trav_inv toq cutset r stack' (internal @ [u]) frontier'"
proof -
  from inv have
    a: "set (u # stack) \<subseteq> component toq cutset r" "set internal \<subseteq> component toq cutset r"
       "r \<in> set (u # stack) \<union> set internal" "distinct internal" "distinct frontier"
    and b: "\<And>w v. w \<in> set internal \<Longrightarrow> parent_of toq v = Some w \<Longrightarrow> v \<notin> cutset
              \<Longrightarrow> v \<in> set (u # stack) \<union> set internal"
    and c: "\<And>w v. w \<in> set internal \<Longrightarrow> parent_of toq v = Some w \<Longrightarrow> v \<in> cutset
              \<Longrightarrow> v \<in> set frontier"
    and d: "\<And>v. v \<in> set frontier \<Longrightarrow> v \<in> cutset \<and> (\<exists>w \<in> set internal. parent_of toq v = Some w)"
    unfolding trav_inv_def by blast+
  have "set (fst (scan_children cutset (get_default (children toq) u []) stack frontier))
          = {v. parent_of toq v = Some u \<and> v \<notin> cutset} \<union> set stack"
    unfolding scan_children_stack children_set[OF ok] by blast
  then have st: "set stack' = {v. parent_of toq v = Some u \<and> v \<notin> cutset} \<union> set stack"
    by (simp add: sc)
  have "set (snd (scan_children cutset (get_default (children toq) u []) stack frontier))
          = {v. parent_of toq v = Some u \<and> v \<in> cutset} \<union> set frontier"
    unfolding scan_children_frontier children_set[OF ok] by blast
  then have fr: "set frontier' = {v. parent_of toq v = Some u \<and> v \<in> cutset} \<union> set frontier"
    by (simp add: sc)
  have df: "distinct frontier'"
    using scan_children_distinct[OF a(5), of cutset "get_default (children toq) u []" stack]
    by (simp add: sc)
  have u: "u \<in> component toq cutset r" using a(1) by simp
  have 1: "set stack' \<subseteq> component toq cutset r"
  proof
    fix v assume "v \<in> set stack'"
    then have "(parent_of toq v = Some u \<and> v \<notin> cutset) \<or> v \<in> set stack" unfolding st by blast
    then show "v \<in> component toq cutset r"
      using component.down[OF u] a(1) by auto
  qed
  have 2: "set (internal @ [u]) \<subseteq> component toq cutset r" using a(2) u by simp
  have 3: "r \<in> set stack' \<union> set (internal @ [u])" using a(3) unfolding st by auto
  have 4: "distinct (internal @ [u])" using a(4) new by simp
  have 5: "v \<in> set stack' \<union> set (internal @ [u])"
    if w: "w \<in> set (internal @ [u])" "parent_of toq v = Some w" "v \<notin> cutset" for w v
  proof (cases "w = u")
    case True
    then show ?thesis using w(2,3) unfolding st by simp
  next
    case False
    then have "w \<in> set internal" using w(1) by simp
    from b[OF this w(2,3)] show ?thesis unfolding st by auto
  qed
  have 6: "v \<in> set frontier'"
    if w: "w \<in> set (internal @ [u])" "parent_of toq v = Some w" "v \<in> cutset" for w v
  proof (cases "w = u")
    case True
    then show ?thesis using w(2,3) unfolding fr by simp
  next
    case False
    then have "w \<in> set internal" using w(1) by simp
    from c[OF this w(2,3)] show ?thesis unfolding fr by simp
  qed
  have 7: "v \<in> cutset \<and> (\<exists>w \<in> set (internal @ [u]). parent_of toq v = Some w)"
    if "v \<in> set frontier'" for v
  proof -
    from that have "(parent_of toq v = Some u \<and> v \<in> cutset) \<or> v \<in> set frontier"
      unfolding fr by blast
    then show ?thesis using d[of v] by auto
  qed
  show ?thesis
    unfolding trav_inv_def using 1 2 3 4 df 5 6 7 by blast
qed

lemma traverse_inv:
  "dict_ok (nodes toq) \<Longrightarrow> trav_inv toq cutset r stack internal frontier \<Longrightarrow>
   traverse toq cutset stack internal frontier = (i, f) \<Longrightarrow> trav_inv toq cutset r [] i f"
proof (induction toq cutset stack internal frontier rule: traverse.induct)
  case (1 toq cutset internal frontier)
  then show ?case by simp
next
  case (2 toq cutset u stack internal frontier)
  show ?case
  proof (cases "u \<in> set internal")
    case True
    have "trav_inv toq cutset r stack internal frontier"
      using trav_inv_skip[OF "2.prems"(2) True] .
    moreover have "traverse toq cutset stack internal frontier = (i, f)"
      using "2.prems"(3) True by simp
    ultimately show ?thesis using "2.IH"(1)[OF True "2.prems"(1)] by blast
  next
    case False
    obtain stack' frontier' where
      sc: "scan_children cutset (get_default (children toq) u []) stack frontier = (stack', frontier')"
      by (cases "scan_children cutset (get_default (children toq) u []) stack frontier")
    have "trav_inv toq cutset r stack' (internal @ [u]) frontier'"
      using trav_inv_visit[OF "2.prems"(1,2) False sc] .
    moreover have "traverse toq cutset stack' (internal @ [u]) frontier' = (i, f)"
      using "2.prems"(3) False sc by simp
    ultimately show ?thesis
      using "2.IH"(2)[OF False sc[symmetric] "2.prems"(1)] by blast
  qed
qed

lemma traverse_result:
  assumes ok: "dict_ok (nodes toq)" and t: "traverse toq cutset [r] [] [] = (i, f)"
  shows "set i = component toq cutset r" and "distinct i" and "distinct f"
    and "set f = {v \<in> cutset. \<exists>u \<in> component toq cutset r. parent_of toq v = Some u}"
proof -
  have "trav_inv toq cutset r [] i f"
    using traverse_inv[OF ok trav_inv_init t] .
  then have inv: "set i \<subseteq> component toq cutset r \<and> r \<in> set i \<and> distinct i \<and> distinct f \<and>
     (\<forall>u v. u \<in> set i \<and> parent_of toq v = Some u \<and> v \<notin> cutset \<longrightarrow> v \<in> set i) \<and>
     (\<forall>u v. u \<in> set i \<and> parent_of toq v = Some u \<and> v \<in> cutset \<longrightarrow> v \<in> set f) \<and>
     (\<forall>v \<in> set f. v \<in> cutset \<and> (\<exists>u \<in> set i. parent_of toq v = Some u))"
    unfolding trav_inv_def list.set(1) by blast
  then have
    a: "set i \<subseteq> component toq cutset r" "r \<in> set i" "distinct i" "distinct f"
    and b: "\<And>w v. w \<in> set i \<Longrightarrow> parent_of toq v = Some w \<Longrightarrow> v \<notin> cutset \<Longrightarrow> v \<in> set i"
    and c: "\<And>w v. w \<in> set i \<Longrightarrow> parent_of toq v = Some w \<Longrightarrow> v \<in> cutset \<Longrightarrow> v \<in> set f"
    and d: "\<And>v. v \<in> set f \<Longrightarrow> v \<in> cutset \<and> (\<exists>w \<in> set i. parent_of toq v = Some w)"
    by blast+
  have "k \<in> set i" if "k \<in> component toq cutset r" for k
    using that
  proof (induction rule: component.induct)
    case start
    show ?case by (rule a(2))
  next
    case (down u v)
    show ?case by (rule b[OF down.IH down.hyps(2,3)])
  qed
  then show i: "set i = component toq cutset r" using a(1) by blast
  show "distinct i" "distinct f" by (rule a(3), rule a(4))
  show "set f = {v \<in> cutset. \<exists>u \<in> component toq cutset r. parent_of toq v = Some u}"
    unfolding i[symmetric] using c d by blast
qed

lemma component_keys:
  "k \<in> component toq cutset r \<Longrightarrow> r \<in> keys toq \<Longrightarrow> k \<in> keys toq"
  by (induction rule: component.induct) (auto dest: parent_of_Some_keys)

lemma component_depth:
  assumes "validate toq = Inr ()" and "r \<in> keys toq"
  shows "k \<in> component toq cutset r \<Longrightarrow> depth toq r \<le> depth toq k"
proof (induction rule: component.induct)
  case start
  show ?case by simp
next
  case (down u v)
  have vk: "v \<in> keys toq" using down.hyps(2) by (rule parent_of_Some_keys)
  have "v \<noteq> root_id toq" using validate_InrD(2)[OF assms(1)] down.hyps(2) by auto
  from depth_parent[OF validate_InrD(4)[OF assms(1) vk] this down.hyps(2)] down.IH
  show ?case by simp
qed

lemma component_parent:
  "k \<in> component toq cutset r \<Longrightarrow> k \<noteq> r \<Longrightarrow>
     \<exists>u \<in> component toq cutset r. parent_of toq k = Some u \<and> k \<notin> cutset"
  by (erule component.cases) auto

lemma component_root_parent:
  assumes "validate toq = Inr ()" and "r \<in> keys toq" and "parent_of toq r = Some q"
  shows "q \<notin> component toq cutset r"
proof
  assume "q \<in> component toq cutset r"
  then have "depth toq r \<le> depth toq q" by (rule component_depth[OF assms(1,2)])
  moreover have "r \<noteq> root_id toq" using validate_InrD(2)[OF assms(1)] assms(3) by auto
  then have "depth toq q < depth toq r"
    using depth_parent[OF validate_InrD(4)[OF assms(1,2)] _ assms(3)] by simp
  ultimately show False by simp
qed

lemma induced_nodes_ok:
  "set rest \<subseteq> keys toq \<Longrightarrow> distinct rest \<Longrightarrow> set rest \<inter> fst ` set acc = {} \<Longrightarrow>
     induced_nodes toq internal rest acc =
       Inr (acc @ map (\<lambda>k. (k, inode toq (set internal) k)) rest)"
proof (induction rest arbitrary: acc)
  case Nil
  then show ?case by simp
next
  case (Cons k rest)
  from Cons.prems(1) obtain nd where nd: "map_of (nodes toq) k = Some nd"
    by (auto simp: keys_iff)
  have fresh: "k \<notin> fst ` set acc" using Cons.prems(3) by auto
  have n: "\<lparr>id_node = k, text_node = text_node nd,
            parent = (case parent nd of None \<Rightarrow> None
                      | Some q \<Rightarrow> if q \<in> set internal then parent nd else None)\<rparr>
           = inode toq (set internal) k"
    using nd by (auto simp: inode_def parent_of_def split: option.splits)
  have "set rest \<inter> fst ` set (acc @ [(k, inode toq (set internal) k)]) = {}"
    using Cons.prems(2,3) by auto
  from Cons.IH[OF _ _ this] Cons.prems(1,2)
  have "induced_nodes toq internal rest (acc @ [(k, inode toq (set internal) k)]) =
          Inr ((acc @ [(k, inode toq (set internal) k)]) @ map (\<lambda>k. (k, inode toq (set internal) k)) rest)"
    by simp
  then show ?case using nd n by (simp add: Let_def update_fresh[OF fresh])
qed

lemma induced_valid:
  assumes v: "validate toq = Inr ()" and ok: "dict_ok (nodes toq)" and r: "r \<in> keys toq"
    and i: "set i = component toq cutset r" "distinct i"
  defines "T \<equiv> \<lparr>nodes = map (\<lambda>k. (k, inode toq (set i) k)) i, root_id = r\<rparr>"
  shows "validate T = Inr ()" and "dict_ok (nodes T)" and "keys T = component toq cutset r"
    and "\<And>k. k \<in> component toq cutset r \<Longrightarrow> map_of (nodes T) k = Some (inode toq (set i) k)"
    and "parent_of T r = None"
    and "\<And>k. k \<in> component toq cutset r \<Longrightarrow> k \<noteq> r \<Longrightarrow>
           parent_of T k = parent_of toq k \<and> (\<exists>q \<in> component toq cutset r. parent_of toq k = Some q)"
proof -
  show okT: "dict_ok (nodes T)" using i(2) by (simp add: T_def dict_ok_def comp_def)
  show keysT: "keys T = component toq cutset r"
    using i(1) by (force simp: T_def keys_def)
  show m: "map_of (nodes T) k = Some (inode toq (set i) k)" if "k \<in> component toq cutset r" for k
    using that i(1) by (simp add: T_def map_of_tabulate)
  have par: "parent_of T k = parent (inode toq (set i) k)" if "k \<in> component toq cutset r" for k
    using m[OF that] by (simp add: parent_of_def)
  show pr: "parent_of T r = None"
  proof (cases "parent_of toq r")
    case None
    then show ?thesis using par[OF component.start] by (simp add: inode_def)
  next
    case (Some q)
    from component_root_parent[OF v r Some, of cutset] Some
    show ?thesis using par[OF component.start] i(1) by (simp add: inode_def)
  qed
  show pk: "parent_of T k = parent_of toq k \<and> (\<exists>q \<in> component toq cutset r. parent_of toq k = Some q)"
    if "k \<in> component toq cutset r" "k \<noteq> r" for k
  proof -
    from component_parent[OF that] obtain u where
      u: "u \<in> component toq cutset r" "parent_of toq k = Some u" by blast
    then show ?thesis using par[OF that(1)] i(1) by (simp add: inode_def)
  qed
  have step: "\<exists>p \<in> keys T. parent_of T k = Some p \<and> depth toq p < depth toq k"
    if k: "k \<in> keys T" "k \<noteq> root_id T" for k
  proof -
    have kc: "k \<in> component toq cutset r" "k \<noteq> r" using k keysT by (simp_all add: T_def)
    from pk[OF kc] obtain q where
      q: "q \<in> component toq cutset r" "parent_of toq k = Some q" "parent_of T k = Some q" by auto
    have kk: "k \<in> keys toq" using q(2) by (rule parent_of_Some_keys)
    have "k \<noteq> root_id toq" using validate_InrD(2)[OF v] q(2) by auto
    from depth_parent[OF validate_InrD(4)[OF v kk] this q(2)] q keysT
    show ?thesis by blast
  qed
  have "root_id T \<in> keys T" using keysT component.start[of r toq cutset] by (simp add: T_def)
  moreover have "parent_of T (root_id T) = None" using pr by (simp add: T_def)
  ultimately show "validate T = Inr ()"
    using okT step by (intro validate_InrI[where rk = "depth toq"]) auto
qed

lemma extract_open_toq_eq:
  assumes v: "validate toq = Inr ()" and ok: "dict_ok (nodes toq)" and r: "r \<in> keys toq"
    and t: "traverse toq (set (cut_edges plan)) [r] [] [] = (i, f)"
  shows "extract_open_toq toq plan r =
           Inr \<lparr>toq_o = \<lparr>nodes = map (\<lambda>k. (k, inode toq (set i) k)) i, root_id = r\<rparr>,
                inputs = sort f, root_id_o = r\<rparr>"
proof -
  note res = traverse_result[OF ok t]
  have sub: "set i \<subseteq> keys toq" using res(1) component_keys[OF _ r] by blast
  have ind: "induced_nodes toq i i [] = Inr (map (\<lambda>k. (k, inode toq (set i) k)) i)"
    using induced_nodes_ok[OF sub res(2), of "[]" i] by simp
  have vo: "validate \<lparr>nodes = map (\<lambda>k. (k, inode toq (set i) k)) i, root_id = r\<rparr> = Inr ()"
    by (rule induced_valid(1)[OF v ok r res(1,2)])
  show ?thesis
    unfolding extract_open_toq_def Let_def by (simp add: v t ind vo del: traverse.simps)
qed

lemma extract_open_toq_result:
  assumes v: "validate toq = Inr ()" and ok: "dict_ok (nodes toq)" and r: "r \<in> keys toq"
  shows "\<exists>ot. extract_open_toq toq plan r = Inr ot \<and>
           root_id (toq_o ot) = r \<and> root_id_o ot = r \<and>
           keys (toq_o ot) = component toq (set (cut_edges plan)) r \<and>
           dict_ok (nodes (toq_o ot)) \<and> validate (toq_o ot) = Inr () \<and>
           sorted (inputs ot) \<and> distinct (inputs ot) \<and>
           set (inputs ot) = {v \<in> set (cut_edges plan).
                               \<exists>u \<in> component toq (set (cut_edges plan)) r. parent_of toq v = Some u} \<and>
           (\<forall>k \<in> component toq (set (cut_edges plan)) r.
              map_of (nodes (toq_o ot)) k =
                Some (inode toq (component toq (set (cut_edges plan)) r) k)) \<and>
           parent_of (toq_o ot) r = None \<and>
           (\<forall>k \<in> component toq (set (cut_edges plan)) r. k \<noteq> r \<longrightarrow>
              parent_of (toq_o ot) k = parent_of toq k \<and>
              (\<exists>q \<in> component toq (set (cut_edges plan)) r. parent_of toq k = Some q))"
proof -
  let ?cutset = "set (cut_edges plan)"
  obtain i f where t: "traverse toq ?cutset [r] [] [] = (i, f)"
    by (cases "traverse toq ?cutset [r] [] []")
  note res = traverse_result[OF ok t]
  let ?T = "\<lparr>nodes = map (\<lambda>k. (k, inode toq (set i) k)) i, root_id = r\<rparr>"
  let ?ot = "\<lparr>toq_o = ?T, inputs = sort f, root_id_o = r\<rparr>"
  note iv = induced_valid[OF v ok r res(1,2)]
  have "extract_open_toq toq plan r = Inr ?ot" by (rule extract_open_toq_eq[OF v ok r t])
  moreover have "root_id (toq_o ?ot) = r" "root_id_o ?ot = r" by simp_all
  moreover have "keys (toq_o ?ot) = component toq ?cutset r" using iv(3) by simp
  moreover have "dict_ok (nodes (toq_o ?ot))" using iv(2) by simp
  moreover have "validate (toq_o ?ot) = Inr ()" using iv(1) by simp
  moreover have "sorted (inputs ?ot)" "distinct (inputs ?ot)" using res(3) by simp_all
  moreover have "set (inputs ?ot) =
      {v \<in> ?cutset. \<exists>u \<in> component toq ?cutset r. parent_of toq v = Some u}"
    using res(4) by simp
  moreover have "\<forall>k \<in> component toq ?cutset r.
      map_of (nodes (toq_o ?ot)) k = Some (inode toq (component toq ?cutset r) k)"
    using iv(4) res(1) by simp
  moreover have "parent_of (toq_o ?ot) r = None" using iv(5) by simp
  moreover have "\<forall>k \<in> component toq ?cutset r. k \<noteq> r \<longrightarrow>
      parent_of (toq_o ?ot) k = parent_of toq k \<and>
      (\<exists>q \<in> component toq ?cutset r. parent_of toq k = Some q)"
    using iv(6) by simp
  ultimately show ?thesis by blast
qed

lemma component_cr:
  assumes v: "validate toq = Inr ()" and r: "r \<in> keys toq"
    and rr: "r = root_id toq \<or> r \<in> cutset"
  shows "k \<in> component toq cutset r \<Longrightarrow> cr toq cutset k = r"
proof (induction rule: component.induct)
  case start
  have "parent_of toq r = None \<or> r \<in> cutset"
    using rr validate_InrD(2)[OF v] by auto
  then show ?case by (rule cr_stop[OF r])
next
  case (down u w)
  have "u \<in> keys toq" using down.hyps(1) r by (rule component_keys)
  from cr_step[OF v down.hyps(2,3) this] down.IH show ?case by simp
qed

lemma cr_component:
  assumes v: "validate toq = Inr ()" and ok: "dict_ok (nodes toq)"
  shows "k \<in> keys toq \<Longrightarrow> k \<in> component toq cutset (cr toq cutset k)"
proof (induction "depth toq k" arbitrary: k rule: less_induct)
  case less
  show ?case
  proof (cases "parent_of toq k = None \<or> k \<in> cutset")
    case True
    then have "cr toq cutset k = k" by (rule cr_stop[OF less.prems])
    then show ?thesis by (simp add: component.start)
  next
    case False
    then have ne: "k \<noteq> root_id toq" using validate_InrD(2)[OF v] by auto
    from valid_parent[OF v ok less.prems ne] obtain p where
      p: "p \<in> keys toq" "parent_of toq k = Some p" "depth toq p < depth toq k" by blast
    have "p \<in> component toq cutset (cr toq cutset p)" using less.hyps[OF p(3) p(1)] .
    moreover have "cr toq cutset k = cr toq cutset p"
      using cr_step[OF v p(2) _ p(1)] False by simp
    ultimately show ?thesis using component.down[OF _ p(2)] False by simp
  qed
qed

lemma chain_extract_0:
  "extract_open_toq chain_toq (CollapsePlan [1]) 0 =
     Inr \<lparr>toq_o = \<lparr>nodes = [(0, \<lparr>id_node = 0, text_node = ''root'', parent = None\<rparr>)],
                     root_id = 0\<rparr>,
          inputs = [1], root_id_o = 0\<rparr>"
  by code_simp

lemma chain_extract_1:
  "extract_open_toq chain_toq (CollapsePlan [1]) 1 =
     Inr \<lparr>toq_o = \<lparr>nodes = [(1, \<lparr>id_node = 1, text_node = ''a'', parent = None\<rparr>),
                              (2, \<lparr>id_node = 2, text_node = ''b'', parent = Some 1\<rparr>)],
                     root_id = 1\<rparr>,
          inputs = [], root_id_o = 1\<rparr>"
  by code_simp

text \<open>
  C7. On a valid tree, for a root that is a node of the tree, \<open>extract_open_toq\<close> returns
  an \<open>OpenToQ\<close> whose inputs are, sorted and without duplicates, exactly the cut nodes
  whose parent in the original tree is internal; whose internal nodes are exactly the
  nodes reachable from the root without crossing a cut edge; and in which an internal
  node has parent \<open>None\<close> exactly when its original parent is not internal, which is the
  case for the root and no other node, the other nodes keeping their parent.
\<close>

theorem extract_open_toq_component:
  assumes "validate toq = Inr ()" and "dict_ok (nodes toq)" and "rootn \<in> keys toq"
  shows "\<exists>ot. extract_open_toq toq plan rootn = Inr ot \<and>
           sorted (inputs ot) \<and> distinct (inputs ot) \<and>
           set (inputs ot) = {v \<in> set (cut_edges plan).
                               \<exists>u \<in> keys (toq_o ot). parent_of toq v = Some u} \<and>
           keys (toq_o ot) = component toq (set (cut_edges plan)) rootn \<and>
           (\<forall>k \<in> keys (toq_o ot).
              (parent_of (toq_o ot) k = None \<longleftrightarrow> k = rootn) \<and>
              (parent_of (toq_o ot) k = None \<longleftrightarrow>
                 (\<forall>q. parent_of toq k = Some q \<longrightarrow> q \<notin> keys (toq_o ot))) \<and>
              (k \<noteq> rootn \<longrightarrow> parent_of (toq_o ot) k = parent_of toq k))"
proof -
  let ?C = "component toq (set (cut_edges plan)) rootn"
  from extract_open_toq_result[OF assms, of plan] obtain ot where
    ot: "extract_open_toq toq plan rootn = Inr ot"
        "keys (toq_o ot) = ?C" "sorted (inputs ot)" "distinct (inputs ot)"
        "set (inputs ot) = {v \<in> set (cut_edges plan). \<exists>u \<in> ?C. parent_of toq v = Some u}"
        "parent_of (toq_o ot) rootn = None"
    and nr: "\<And>k. k \<in> ?C \<Longrightarrow> k \<noteq> rootn \<Longrightarrow>
              parent_of (toq_o ot) k = parent_of toq k \<and> (\<exists>q \<in> ?C. parent_of toq k = Some q)"
    by blast
  have out: "q \<notin> ?C" if "parent_of toq rootn = Some q" for q
    using component_root_parent[OF assms(1,3) that] .
  have pk: "(parent_of (toq_o ot) k = None \<longleftrightarrow> k = rootn) \<and>
        (parent_of (toq_o ot) k = None \<longleftrightarrow> (\<forall>q. parent_of toq k = Some q \<longrightarrow> q \<notin> ?C)) \<and>
        (k \<noteq> rootn \<longrightarrow> parent_of (toq_o ot) k = parent_of toq k)"
    if k: "k \<in> ?C" for k
  proof (cases "k = rootn")
    case True
    then show ?thesis using ot(6) out by auto
  next
    case False
    from nr[OF k False] False show ?thesis by auto
  qed
  have main: "\<forall>k \<in> keys (toq_o ot).
              (parent_of (toq_o ot) k = None \<longleftrightarrow> k = rootn) \<and>
              (parent_of (toq_o ot) k = None \<longleftrightarrow>
                 (\<forall>q. parent_of toq k = Some q \<longrightarrow> q \<notin> keys (toq_o ot))) \<and>
              (k \<noteq> rootn \<longrightarrow> parent_of (toq_o ot) k = parent_of toq k)"
    unfolding ot(2)
  proof
    fix k assume "k \<in> ?C"
    then show "(parent_of (toq_o ot) k = None \<longleftrightarrow> k = rootn) \<and>
        (parent_of (toq_o ot) k = None \<longleftrightarrow> (\<forall>q. parent_of toq k = Some q \<longrightarrow> q \<notin> ?C)) \<and>
        (k \<noteq> rootn \<longrightarrow> parent_of (toq_o ot) k = parent_of toq k)"
      by (rule pk)
  qed
  have inp: "set (inputs ot) = {v \<in> set (cut_edges plan).
                               \<exists>u \<in> keys (toq_o ot). parent_of toq v = Some u}"
    unfolding ot(2) by (rule ot(5))
  show ?thesis using ot(1,2,3,4) inp main by blast
qed

theorem extract_open_toq_component_witness:
  "validate chain_toq = Inr () \<and> dict_ok (nodes chain_toq) \<and> 0 \<in> keys chain_toq \<and>
   (\<exists>ot. extract_open_toq chain_toq (CollapsePlan [1]) 0 = Inr ot \<and>
      inputs ot = [1] \<and> keys (toq_o ot) = {0} \<and>
      component chain_toq (set (cut_edges (CollapsePlan [1]))) 0 = {0})"
proof -
  have k: "0 \<in> keys chain_toq" by (simp add: chain_keys)
  from extract_open_toq_component[OF chain_valid chain_dict_ok k, of "CollapsePlan [1]"]
  obtain ot where
    ot: "extract_open_toq chain_toq (CollapsePlan [1]) 0 = Inr ot"
        "keys (toq_o ot) = component chain_toq (set (cut_edges (CollapsePlan [1]))) 0"
    by blast
  have "keys (toq_o ot) = {0}" "inputs ot = [1]"
    using ot(1) unfolding chain_extract_0 by (auto simp: keys_def)
  with ot chain_valid chain_dict_ok k show ?thesis by auto
qed

text \<open>
  C1. On a valid tree, for a plan whose cut edges are nodes of the tree,
  \<open>extract_open_toq\<close> returns at every component root; the internal node sets at two
  distinct component roots are disjoint; the union over the component roots of the
  internal nodes and the inputs is the set of all node ids of the tree; and so is the
  union of the internal nodes alone: the components partition the tree.
\<close>

theorem extract_open_toq_partition:
  assumes "validate toq = Inr ()" and "dict_ok (nodes toq)"
    and "set (cut_edges plan) \<subseteq> keys toq"
  shows "(\<forall>r \<in> set (component_roots toq plan). \<exists>ot. extract_open_toq toq plan r = Inr ot) \<and>
         (\<forall>r1 \<in> set (component_roots toq plan). \<forall>r2 \<in> set (component_roots toq plan).
            \<forall>ot1 ot2. r1 \<noteq> r2 \<and> extract_open_toq toq plan r1 = Inr ot1 \<and>
                      extract_open_toq toq plan r2 = Inr ot2
              \<longrightarrow> keys (toq_o ot1) \<inter> keys (toq_o ot2) = {}) \<and>
         (\<Union>r \<in> set (component_roots toq plan).
            case extract_open_toq toq plan r of
              Inl e \<Rightarrow> {}
            | Inr ot \<Rightarrow> keys (toq_o ot) \<union> set (inputs ot)) = keys toq \<and>
         (\<Union>r \<in> set (component_roots toq plan).
            case extract_open_toq toq plan r of
              Inl e \<Rightarrow> {}
            | Inr ot \<Rightarrow> keys (toq_o ot)) = keys toq"
proof -
  let ?cutset = "set (cut_edges plan)"
  let ?roots = "set (component_roots toq plan)"
  have roots: "?roots = insert (root_id toq) ?cutset" by (rule component_roots_set)
  have rk: "r \<in> keys toq" if "r \<in> ?roots" for r
    using that assms(3) validate_InrD(1)[OF assms(1)] unfolding roots by auto
  have rr: "r = root_id toq \<or> r \<in> ?cutset" if "r \<in> ?roots" for r
    using that unfolding roots by auto
  have ex: "\<exists>ot. extract_open_toq toq plan r = Inr ot \<and>
              keys (toq_o ot) = component toq ?cutset r \<and>
              set (inputs ot) = {v \<in> ?cutset. \<exists>u \<in> component toq ?cutset r. parent_of toq v = Some u}"
    if "r \<in> ?roots" for r
    using extract_open_toq_result[OF assms(1,2) rk[OF that], of plan] by blast
  have 1: "\<forall>r \<in> ?roots. \<exists>ot. extract_open_toq toq plan r = Inr ot" using ex by blast
  have 2: "keys (toq_o ot1) \<inter> keys (toq_o ot2) = {}"
    if h: "r1 \<in> ?roots" "r2 \<in> ?roots" "r1 \<noteq> r2" "extract_open_toq toq plan r1 = Inr ot1"
      "extract_open_toq toq plan r2 = Inr ot2" for r1 r2 ot1 ot2
  proof -
    have k1: "keys (toq_o ot1) = component toq ?cutset r1" using ex[OF h(1)] h(4) by auto
    have k2: "keys (toq_o ot2) = component toq ?cutset r2" using ex[OF h(2)] h(5) by auto
    show ?thesis
    proof (rule ccontr)
      assume "keys (toq_o ot1) \<inter> keys (toq_o ot2) \<noteq> {}"
      then obtain k where "k \<in> component toq ?cutset r1" "k \<in> component toq ?cutset r2"
        unfolding k1 k2 by blast
      then have "cr toq ?cutset k = r1" "cr toq ?cutset k = r2"
        using component_cr[OF assms(1) rk[OF h(1)] rr[OF h(1)]]
          component_cr[OF assms(1) rk[OF h(2)] rr[OF h(2)]] by blast+
      with h(3) show False by simp
    qed
  qed
  have 3: "(\<Union>r \<in> ?roots. case extract_open_toq toq plan r of
              Inl e \<Rightarrow> {} | Inr ot \<Rightarrow> keys (toq_o ot) \<union> set (inputs ot)) = keys toq"
  proof (intro set_eqI iffI)
    fix k
    assume "k \<in> (\<Union>r \<in> ?roots. case extract_open_toq toq plan r of
              Inl e \<Rightarrow> {} | Inr ot \<Rightarrow> keys (toq_o ot) \<union> set (inputs ot))"
    then obtain r where r: "r \<in> ?roots"
      and k: "k \<in> (case extract_open_toq toq plan r of
                Inl e \<Rightarrow> {} | Inr ot \<Rightarrow> keys (toq_o ot) \<union> set (inputs ot))" by blast
    from ex[OF r] obtain ot where ot: "extract_open_toq toq plan r = Inr ot"
      "keys (toq_o ot) = component toq ?cutset r"
      "set (inputs ot) = {v \<in> ?cutset. \<exists>u \<in> component toq ?cutset r. parent_of toq v = Some u}"
      by blast
    from k ot(1) have "k \<in> keys (toq_o ot) \<or> k \<in> set (inputs ot)" by simp
    then show "k \<in> keys toq"
      using ot(2,3) component_keys[OF _ rk[OF r]] parent_of_Some_keys by auto
  next
    fix k
    assume k: "k \<in> keys toq"
    let ?r = "cr toq ?cutset k"
    have r: "?r \<in> ?roots"
      using component_root_valid(3)[OF assms(1) k, of ?cutset] unfolding roots by auto
    from ex[OF r] obtain ot where ot: "extract_open_toq toq plan ?r = Inr ot"
      "keys (toq_o ot) = component toq ?cutset ?r" by blast
    have "k \<in> keys (toq_o ot)" using cr_component[OF assms(1,2) k, of ?cutset] ot(2) by simp
    then have "k \<in> (case extract_open_toq toq plan ?r of
                Inl e \<Rightarrow> {} | Inr ot \<Rightarrow> keys (toq_o ot) \<union> set (inputs ot))"
      using ot(1) by simp
    with r show "k \<in> (\<Union>r \<in> ?roots. case extract_open_toq toq plan r of
              Inl e \<Rightarrow> {} | Inr ot \<Rightarrow> keys (toq_o ot) \<union> set (inputs ot))" by blast
  qed
  have 4: "(\<Union>r \<in> ?roots. case extract_open_toq toq plan r of
              Inl e \<Rightarrow> {} | Inr ot \<Rightarrow> keys (toq_o ot)) = keys toq"
  proof (intro set_eqI iffI)
    fix k
    assume "k \<in> (\<Union>r \<in> ?roots. case extract_open_toq toq plan r of
              Inl e \<Rightarrow> {} | Inr ot \<Rightarrow> keys (toq_o ot))"
    then obtain r where r: "r \<in> ?roots"
      and k: "k \<in> (case extract_open_toq toq plan r of
                Inl e \<Rightarrow> {} | Inr ot \<Rightarrow> keys (toq_o ot))" by blast
    from ex[OF r] obtain ot where ot: "extract_open_toq toq plan r = Inr ot"
      "keys (toq_o ot) = component toq ?cutset r" by blast
    from k ot(1) have "k \<in> keys (toq_o ot)" by simp
    then show "k \<in> keys toq"
      using ot(2) component_keys[OF _ rk[OF r]] by auto
  next
    fix k
    assume k: "k \<in> keys toq"
    let ?r = "cr toq ?cutset k"
    have r: "?r \<in> ?roots"
      using component_root_valid(3)[OF assms(1) k, of ?cutset] unfolding roots by auto
    from ex[OF r] obtain ot where ot: "extract_open_toq toq plan ?r = Inr ot"
      "keys (toq_o ot) = component toq ?cutset ?r" by blast
    have "k \<in> keys (toq_o ot)" using cr_component[OF assms(1,2) k, of ?cutset] ot(2) by simp
    then have "k \<in> (case extract_open_toq toq plan ?r of
                Inl e \<Rightarrow> {} | Inr ot \<Rightarrow> keys (toq_o ot))"
      using ot(1) by simp
    with r show "k \<in> (\<Union>r \<in> ?roots. case extract_open_toq toq plan r of
              Inl e \<Rightarrow> {} | Inr ot \<Rightarrow> keys (toq_o ot))" by blast
  qed
  have disj: "\<forall>r1 \<in> ?roots. \<forall>r2 \<in> ?roots.
            \<forall>ot1 ot2. r1 \<noteq> r2 \<and> extract_open_toq toq plan r1 = Inr ot1 \<and>
                      extract_open_toq toq plan r2 = Inr ot2
              \<longrightarrow> keys (toq_o ot1) \<inter> keys (toq_o ot2) = {}"
    using 2 by blast
  show ?thesis by (rule conjI[OF 1 conjI[OF disj conjI[OF 3 4]]])
qed

theorem extract_open_toq_partition_witness:
  "validate chain_toq = Inr () \<and> dict_ok (nodes chain_toq) \<and>
   set (cut_edges (CollapsePlan [1])) \<subseteq> keys chain_toq \<and>
   component_roots chain_toq (CollapsePlan [1]) = [0, 1] \<and>
   (\<exists>ot1 ot2. extract_open_toq chain_toq (CollapsePlan [1]) 0 = Inr ot1 \<and>
      extract_open_toq chain_toq (CollapsePlan [1]) 1 = Inr ot2 \<and>
      keys (toq_o ot1) \<inter> keys (toq_o ot2) = {})"
proof -
  have a: "set (cut_edges (CollapsePlan [1])) \<subseteq> keys chain_toq" by (simp add: chain_keys)
  have r: "component_roots chain_toq (CollapsePlan [1]) = [0, 1]"
    by (simp add: component_roots_code chain_toq_def)
  note th = extract_open_toq_partition[OF chain_valid chain_dict_ok a, unfolded r]
  have ex: "\<forall>r \<in> set [0, 1]. \<exists>ot. extract_open_toq chain_toq (CollapsePlan [1]) r = Inr ot"
    by (rule th[THEN conjunct1])
  have dj: "\<forall>r1 \<in> set [0, 1]. \<forall>r2 \<in> set [0, 1].
            \<forall>ot1 ot2. r1 \<noteq> r2 \<and> extract_open_toq chain_toq (CollapsePlan [1]) r1 = Inr ot1 \<and>
                      extract_open_toq chain_toq (CollapsePlan [1]) r2 = Inr ot2
              \<longrightarrow> keys (toq_o ot1) \<inter> keys (toq_o ot2) = {}"
    by (rule th[THEN conjunct2, THEN conjunct1])
  from ex obtain ot1 ot2 where
    ot: "extract_open_toq chain_toq (CollapsePlan [1]) 0 = Inr ot1"
        "extract_open_toq chain_toq (CollapsePlan [1]) 1 = Inr ot2"
    by auto
  have "keys (toq_o ot1) \<inter> keys (toq_o ot2) = {}"
    using dj ot by (simp del: One_nat_def) 
  with ot chain_valid chain_dict_ok a r show ?thesis by blast
qed

end
